theory Spec2Isabelle
  imports Main "HOL-Library.Sublist"
begin

section \<open>Data model\<close>

text \<open>
  The records of \<^verbatim>\<open>thoth/solver/python/python.py\<close>. The source passes loosely keyed
  dictionaries around; every dictionary shape it reads or builds is a record here, and a
  key that is present in some uses and absent in others is an option field.
\<close>

type_synonym package_key = "string \<times> string"

text \<open>What \<^verbatim>\<open>pipdeptree --json\<close> prints: a list of entries, each a package and its dependencies.\<close>

record package_json =
  pkg_key :: string
  pkg_package_name :: string
  pkg_installed_version :: string

record dependency_json =
  dj_key :: string
  dj_package_name :: string
  dj_installed_version :: string
  dj_required_version :: "string option"

record pipdeptree_entry =
  pt_package :: package_json
  pt_dependencies :: "dependency_json list"

text \<open>The normalised entry built by \<^verbatim>\<open>_create_entry\<close> and completed by the traversal.\<close>

record resolved =
  rv_versions :: "string list"
  rv_index :: string

record dependency =
  dep_package_name :: string
  dep_required_version :: "string option"
  dep_resolved_versions :: "resolved list option"

record entry =
  package_name :: string
  package_version :: string
  index_url :: "string option"
  sha256 :: "string list option"
  dependencies :: "dependency list"

text \<open>Exceptions that can travel through the functions of the module.\<close>

datatype error =
    CommandError string int
  | AssertionError string
  | TypeError string
  | SourceError string

datatype error_details = CommandDetails string int | Message string

record error_record =
  err_package_name :: string
  err_index :: string
  err_version :: string
  err_type :: string
  err_details :: error_details

record unresolved_requirement =
  unres_package_name :: string
  unres_version_spec :: string
  unres_index :: string

record unparsed_requirement =
  unp_requirement :: string
  unp_details :: string

record pass_result =
  tree :: "entry list"
  res_errors :: "error_record list"
  res_unparsed :: "unparsed_requirement list"
  res_unresolved :: "unresolved_requirement list"
  environment :: "entry list"

section \<open>External collaborators\<close>

text \<open>
  The module calls four collaborators that live outside it: the command runner
  (\<^verbatim>\<open>thoth.analyzer.run_command\<close>), the requirement parser
  (\<^verbatim>\<open>PythonDependencyParser.parse_python\<close>), the version solver of one index
  (\<^verbatim>\<open>PythonSolver.solve\<close>) and the hash lookup of one index
  (\<^verbatim>\<open>Source.get_package_hashes\<close>). They are parameters of the model. Everything
  outside the process (the virtual environment, the network) is a value \<open>'w\<close> that each
  effectful collaborator reads and replaces, so a collaborator may answer differently each
  time it is asked. A solver and a source are identified by the URL of their index.
\<close>

record parsed_dependency =
  pd_name :: string
  pd_spec :: "(string \<times> string) list"

datatype solve_failure = NotFound | OtherException string

record package_hash =
  ph_name :: string
  ph_sha256 :: string

record 'w collaborators =
  exec :: "string \<Rightarrow> 'w \<Rightarrow> (int \<times> pipdeptree_entry list) \<times> 'w"
  parse_python :: "string \<Rightarrow> string + parsed_dependency"
  solve :: "string \<Rightarrow> string list \<Rightarrow> 'w \<Rightarrow> (solve_failure + (string \<times> string list) list) \<times> 'w"
  get_package_hashes :: "string \<Rightarrow> string \<Rightarrow> string \<Rightarrow> 'w \<Rightarrow> (string + package_hash list) \<times> 'w"

text \<open>
  The state threaded through the module: the outside world, the commands handed to
  \<^verbatim>\<open>run_command\<close> so far (oldest first), and the packages announced by the
  \<^verbatim>\<open>_LOGGER.info("Using index %r to discover package %r in version %r", ...)\<close> line that
  opens every iteration of the traversal loop.
\<close>

record 'w state =
  world :: 'w
  commands :: "string list"
  discovered :: "package_key list"

section \<open>Library functions used by the module\<close>

definition apostrophe :: char where
  "apostrophe = CHR 0x27"

definition double_quote :: char where
  "double_quote = CHR 0x22"

definition safe_char :: "char \<Rightarrow> bool" where
  "safe_char c = (c \<in> set ''abcdefghijklmnopqrstuvwxyzABCDEFGHIJKLMNOPQRSTUVWXYZ0123456789_@%+=:,./-'')"

text \<open>\<^verbatim>\<open>shlex.quote\<close> of the standard library.\<close>

definition quote :: "string \<Rightarrow> string" where
  "quote s =
     (if s = [] then [apostrophe, apostrophe]
      else if list_all safe_char s then s
      else [apostrophe]
           @ concat (map (\<lambda>c. if c = apostrophe
                               then [apostrophe, double_quote, apostrophe, double_quote, apostrophe]
                               else [c]) s)
           @ [apostrophe])"

text \<open>\<^verbatim>\<open>str.lower\<close> on the ASCII letters.\<close>

definition lower_char :: "char \<Rightarrow> char" where
  "lower_char c =
     (case map_of (zip ''ABCDEFGHIJKLMNOPQRSTUVWXYZ'' ''abcdefghijklmnopqrstuvwxyz'') c of
        Some l \<Rightarrow> l
      | None \<Rightarrow> c)"

definition lower :: "string \<Rightarrow> string" where
  "lower s = map lower_char s"

text \<open>\<^verbatim>\<open>sep.join(parts)\<close>.\<close>

fun join :: "string \<Rightarrow> string list \<Rightarrow> string" where
  "join sep [] = []"
| "join sep [x] = x"
| "join sep (x # y # ys) = x @ sep @ join sep (y # ys)"

text \<open>
  Modelled from the spec: \<^verbatim>\<open>thoth.analyzer.run_command\<close> is not part of the module.
  It runs the command and returns its return code and (parsed) standard output, raising a
  \<^verbatim>\<open>CommandError\<close> that carries the command and the return code on a non-zero exit
  unless told not to raise.
\<close>

definition run_command ::
  "'w collaborators \<Rightarrow> string \<Rightarrow> bool \<Rightarrow> 'w state
     \<Rightarrow> (error + int \<times> pipdeptree_entry list) \<times> 'w state" where
  "run_command C cmd raise_on_error s =
     (case exec C cmd (world s) of
        ((return_code, stdout), w) \<Rightarrow>
          (let s' = s\<lparr>world := w, commands := commands s @ [cmd]\<rparr>
           in if raise_on_error \<and> return_code \<noteq> 0
              then (Inl (CommandError cmd return_code), s')
              else (Inr (return_code, stdout), s')))"

section \<open>The module\<close>

subsection \<open>\<^verbatim>\<open>_create_entry\<close>\<close>

definition create_entry ::
  "'w collaborators \<Rightarrow> pipdeptree_entry \<Rightarrow> string option \<Rightarrow> 'w state \<Rightarrow> (error + entry) \<times> 'w state" where
  "create_entry C e source s =
     (let name = pkg_package_name (pt_package e);
          version = pkg_installed_version (pt_package e);
          deps = map (\<lambda>d. \<lparr>dep_package_name = dj_package_name d,
                            dep_required_version = dj_required_version d,
                            dep_resolved_versions = None\<rparr>) (pt_dependencies e)
      in case source of
           None \<Rightarrow>
             (Inr \<lparr>package_name = name, package_version = version, index_url = None,
                   sha256 = None, dependencies = deps\<rparr>, s)
         | Some url \<Rightarrow>
             (case get_package_hashes C url name version (world s) of
                (Inl msg, w) \<Rightarrow> (Inl (SourceError msg), s\<lparr>world := w\<rparr>)
              | (Inr items, w) \<Rightarrow>
                  (Inr \<lparr>package_name = name, package_version = version, index_url = Some url,
                        sha256 = Some (map ph_sha256 items), dependencies = deps\<rparr>,
                   s\<lparr>world := w\<rparr>)))"

subsection \<open>\<^verbatim>\<open>_get_environment_details\<close>\<close>

fun create_entries ::
  "'w collaborators \<Rightarrow> pipdeptree_entry list \<Rightarrow> 'w state \<Rightarrow> (error + entry list) \<times> 'w state" where
  "create_entries C [] s = (Inr [], s)"
| "create_entries C (e # es) s =
     (case create_entry C e None s of
        (Inl err, s1) \<Rightarrow> (Inl err, s1)
      | (Inr x, s1) \<Rightarrow>
          (case create_entries C es s1 of
             (Inl err, s2) \<Rightarrow> (Inl err, s2)
           | (Inr xs, s2) \<Rightarrow> (Inr (x # xs), s2)))"

definition get_environment_details ::
  "'w collaborators \<Rightarrow> string \<Rightarrow> 'w state \<Rightarrow> (error + entry list) \<times> 'w state" where
  "get_environment_details C python_bin s =
     (case run_command C (python_bin @ '' -m pipdeptree --json'') True s of
        (Inl err, s1) \<Rightarrow> (Inl err, s1)
      | (Inr (return_code, output), s1) \<Rightarrow> create_entries C output s1)"

subsection \<open>\<^verbatim>\<open>_pipdeptree\<close>\<close>

text \<open>
  The function returns the whole output when no package name is given, the first entry
  whose key matches the name without regard to case, or \<^verbatim>\<open>None\<close>.
\<close>

datatype pipdeptree_result = Whole "pipdeptree_entry list" | Found pipdeptree_entry | Missing

definition pipdeptree ::
  "'w collaborators \<Rightarrow> string \<Rightarrow> string \<Rightarrow> 'w state \<Rightarrow> (error + pipdeptree_result) \<times> 'w state" where
  "pipdeptree C python_bin name s =
     (case run_command C (python_bin @ '' -m pipdeptree --json'') True s of
        (Inl err, s1) \<Rightarrow> (Inl err, s1)
      | (Inr (return_code, output), s1) \<Rightarrow>
          (if name = [] then (Inr (Whole output), s1)
           else (case find (\<lambda>e. lower (pkg_key (pt_package e)) = lower name) output of
                   Some e \<Rightarrow> (Inr (Found e), s1)
                 | None \<Rightarrow> (Inr Missing, s1))))"

subsection \<open>\<^verbatim>\<open>_install_requirement\<close>\<close>

text \<open>
  The function is a generator wrapped by \<^verbatim>\<open>contextlib.contextmanager\<close>. Entering
  the \<^verbatim>\<open>with\<close> statement runs it up to its \<^verbatim>\<open>yield\<close>; leaving the body normally
  resumes it after the \<^verbatim>\<open>yield\<close>. When the body raises, the exception is thrown into
  the generator at the \<^verbatim>\<open>yield\<close>; the \<^verbatim>\<open>yield\<close> stands in no
  \<^verbatim>\<open>try\<close> block, so the exception leaves the generator at once and the statements
  after the \<^verbatim>\<open>yield\<close> do not run.
\<close>

definition install_requirement_enter ::
  "'w collaborators \<Rightarrow> string \<Rightarrow> string \<Rightarrow> string \<Rightarrow> string \<Rightarrow> 'w state
     \<Rightarrow> (error + pipdeptree_result) \<times> 'w state" where
  "install_requirement_enter C python_bin package version index s =
     (case pipdeptree C python_bin package s of
        (Inl err, s1) \<Rightarrow> (Inl err, s1)
      | (Inr previous_version, s1) \<Rightarrow>
          (let cmd = python_bin @ '' -m pip install --force-reinstall --no-cache-dir --no-deps ''
                       @ quote package;
               cmd = (if version \<noteq> [] then cmd @ ''=='' @ quote version else cmd);
               cmd = (if index \<noteq> []
                      then cmd @ '' --index-url '' @ [double_quote] @ quote index @ [double_quote] @ '' ''
                      else cmd)
           in case run_command C cmd True s1 of
                (Inl err, s2) \<Rightarrow> (Inl err, s2)
              | (Inr r, s2) \<Rightarrow> (Inr previous_version, s2)))"

definition uninstall ::
  "'w collaborators \<Rightarrow> string \<Rightarrow> string \<Rightarrow> 'w state \<Rightarrow> (error + unit) \<times> 'w state" where
  "uninstall C python_bin package s =
     (case run_command C (python_bin @ '' -m pip uninstall --yes '' @ quote package) False s of
        (Inl err, s1) \<Rightarrow> (Inl err, s1)
      | (Inr result, s1) \<Rightarrow> (Inr (), s1))"

definition install_requirement_exit ::
  "'w collaborators \<Rightarrow> string \<Rightarrow> string \<Rightarrow> bool \<Rightarrow> pipdeptree_result \<Rightarrow> 'w state
     \<Rightarrow> (error + unit) \<times> 'w state" where
  "install_requirement_exit C python_bin package clean previous_version s =
     (if \<not> clean then (Inr (), s)
      else (case previous_version of
              Found e \<Rightarrow>
                (case run_command C
                        (python_bin @ '' -m pip install --force-reinstall --no-cache-dir --no-deps ''
                           @ quote package @ ''=='' @ quote (pkg_installed_version (pt_package e)))
                        False s of
                   (Inl err, s1) \<Rightarrow> (Inl err, s1)
                 | (Inr result, s1) \<Rightarrow> (Inr (), s1))
            | Whole output \<Rightarrow>
                (if output \<noteq> []
                 then (Inl (TypeError ''list indices must be integers or slices, not str''), s)
                 else uninstall C python_bin package s)
            | Missing \<Rightarrow> uninstall C python_bin package s))"

definition install_requirement ::
  "'w collaborators \<Rightarrow> string \<Rightarrow> string \<Rightarrow> string \<Rightarrow> string
     \<Rightarrow> ('w state \<Rightarrow> (error + 'a) \<times> 'w state) \<Rightarrow> 'w state \<Rightarrow> (error + 'a) \<times> 'w state" where
  "install_requirement C python_bin package version index body s =
     (case install_requirement_enter C python_bin package version index s of
        (Inl err, s1) \<Rightarrow> (Inl err, s1)
      | (Inr previous_version, s1) \<Rightarrow>
          (case body s1 of
             (Inl err, s2) \<Rightarrow> (Inl err, s2)
           | (Inr x, s2) \<Rightarrow>
               (case install_requirement_exit C python_bin package True previous_version s2 of
                  (Inl err, s3) \<Rightarrow> (Inl err, s3)
                | (Inr u, s3) \<Rightarrow> (Inr x, s3))))"

subsection \<open>\<^verbatim>\<open>_get_dependency_specification\<close> and \<^verbatim>\<open>_resolve_versions\<close>\<close>

definition get_dependency_specification :: "(string \<times> string) list \<Rightarrow> string" where
  "get_dependency_specification dep_spec = join '','' (map (\<lambda>dep_range. fst dep_range @ snd dep_range) dep_spec)"

definition resolve_versions ::
  "'w collaborators \<Rightarrow> string \<Rightarrow> string \<Rightarrow> string option \<Rightarrow> 'w state
     \<Rightarrow> (error + string list) \<times> 'w state" where
  "resolve_versions C solver name version_spec s =
     (case solve C solver [name @ (case version_spec of None \<Rightarrow> [] | Some spec \<Rightarrow> spec)] (world s) of
        (Inl failure, w) \<Rightarrow> (Inr [], s\<lparr>world := w\<rparr>)
      | (Inr resolved_versions, w) \<Rightarrow>
          (if length resolved_versions \<noteq> 1
           then (Inl (AssertionError ''Resolution of one package version ended with multiple packages.''),
                 s\<lparr>world := w\<rparr>)
           else (Inr (snd (hd resolved_versions)), s\<lparr>world := w\<rparr>)))"

subsection \<open>\<^verbatim>\<open>_do_resolve_index\<close>\<close>

text \<open>The local variables of the function that its loops update.\<close>

record locals =
  packages_seen :: "package_key set"
  packages :: "entry list"
  errors :: "error_record list"
  unresolved :: "unresolved_requirement list"
  unparsed :: "unparsed_requirement list"
  queue :: "package_key list"

text \<open>
  The loop over the resolved versions of a seed requirement: every version is added to
  \<^verbatim>\<open>packages_seen\<close> and appended to the queue.
\<close>

fun seed_versions :: "string \<Rightarrow> string list \<Rightarrow> locals \<Rightarrow> locals" where
  "seed_versions name [] L = L"
| "seed_versions name (version # versions) L =
     seed_versions name versions
       (L\<lparr>packages_seen := insert (name, version) (packages_seen L),
          queue := queue L @ [(name, version)]\<rparr>)"

text \<open>The loop over the requirements.\<close>

fun seed_loop ::
  "'w collaborators \<Rightarrow> string \<Rightarrow> string set \<Rightarrow> string list \<Rightarrow> locals \<Rightarrow> 'w state
     \<Rightarrow> (error + locals) \<times> 'w state" where
  "seed_loop C index exclude_packages [] L s = (Inr L, s)"
| "seed_loop C index exclude_packages (requirement # requirements) L s =
     (case parse_python C requirement of
        Inl exc \<Rightarrow>
          seed_loop C index exclude_packages requirements
            (L\<lparr>unparsed := unparsed L @ [\<lparr>unp_requirement = requirement, unp_details = exc\<rparr>]\<rparr>) s
      | Inr dep \<Rightarrow>
          (if pd_name dep \<in> exclude_packages
           then seed_loop C index exclude_packages requirements L s
           else (let version_spec = get_dependency_specification (pd_spec dep)
                 in case resolve_versions C index (pd_name dep) (Some version_spec) s of
                      (Inl err, s1) \<Rightarrow> (Inl err, s1)
                    | (Inr resolved_versions, s1) \<Rightarrow>
                        (if resolved_versions = []
                         then seed_loop C index exclude_packages requirements
                                (L\<lparr>unresolved := unresolved L @
                                      [\<lparr>unres_package_name = pd_name dep,
                                        unres_version_spec = version_spec,
                                        unres_index = index\<rparr>]\<rparr>) s1
                         else seed_loop C index exclude_packages requirements
                                (seed_versions (pd_name dep) resolved_versions L) s1))))"

text \<open>
  The innermost loop of the traversal, over the versions one index resolved for a
  dependency: a version is appended to the queue when its pair is not in
  \<^verbatim>\<open>packages_seen\<close>.
\<close>

fun versions_loop ::
  "string \<Rightarrow> string list \<Rightarrow> package_key set \<times> package_key list
     \<Rightarrow> package_key set \<times> package_key list" where
  "versions_loop dependency_name [] (seen, q) = (seen, q)"
| "versions_loop dependency_name (version # versions) (seen, q) =
     (if (dependency_name, version) \<notin> seen
      then versions_loop dependency_name versions
             (insert (dependency_name, version) seen, q @ [(dependency_name, version)])
      else versions_loop dependency_name versions (seen, q))"

text \<open>The loop over all solvers, for one dependency.\<close>

fun solvers_loop ::
  "'w collaborators \<Rightarrow> bool \<Rightarrow> string \<Rightarrow> string option \<Rightarrow> string list
     \<Rightarrow> resolved list \<times> package_key set \<times> package_key list \<Rightarrow> 'w state
     \<Rightarrow> (error + resolved list \<times> package_key set \<times> package_key list) \<times> 'w state" where
  "solvers_loop C transitive dependency_name dependency_range [] acc s = (Inr acc, s)"
| "solvers_loop C transitive dependency_name dependency_range (dep_solver # solvers) (rvs, seen, q) s =
     (case resolve_versions C dep_solver dependency_name dependency_range s of
        (Inl err, s1) \<Rightarrow> (Inl err, s1)
      | (Inr resolved_versions, s1) \<Rightarrow>
          (let rvs' = rvs @ [\<lparr>rv_versions = resolved_versions, rv_index = dep_solver\<rparr>]
           in if \<not> transitive
              then solvers_loop C transitive dependency_name dependency_range solvers (rvs', seen, q) s1
              else (case versions_loop dependency_name resolved_versions (seen, q) of
                      (seen', q') \<Rightarrow>
                        solvers_loop C transitive dependency_name dependency_range solvers
                          (rvs', seen', q') s1)))"

text \<open>
  The loop over the dependencies of a probed entry. The source appends the entry to
  \<^verbatim>\<open>packages\<close> first and then fills in each dependency in place; the model fills the
  dependencies in and then appends the entry, which gives the same list whenever the
  function returns.
\<close>

fun dependencies_loop ::
  "'w collaborators \<Rightarrow> bool \<Rightarrow> string list \<Rightarrow> dependency list
     \<Rightarrow> dependency list \<times> package_key set \<times> package_key list \<Rightarrow> 'w state
     \<Rightarrow> (error + dependency list \<times> package_key set \<times> package_key list) \<times> 'w state" where
  "dependencies_loop C transitive all_solvers [] acc s = (Inr acc, s)"
| "dependencies_loop C transitive all_solvers (d # ds) (filled, seen, q) s =
     (case solvers_loop C transitive (dep_package_name d) (dep_required_version d) all_solvers
             ([], seen, q) s of
        (Inl err, s1) \<Rightarrow> (Inl err, s1)
      | (Inr (rvs, seen', q'), s1) \<Rightarrow>
          dependencies_loop C transitive all_solvers ds
            (filled @ [d\<lparr>dep_resolved_versions := Some rvs\<rparr>], seen', q') s1)"

text \<open>One iteration of \<^verbatim>\<open>while queue:\<close>, entered with a non-empty queue.\<close>

definition queue_step ::
  "'w collaborators \<Rightarrow> string \<Rightarrow> string list \<Rightarrow> string \<Rightarrow> bool \<Rightarrow> locals \<Rightarrow> 'w state
     \<Rightarrow> (error + locals) \<times> 'w state" where
  "queue_step C index all_solvers python_bin transitive L0 s0 =
     (let name = fst (last (queue L0));
          version = snd (last (queue L0));
          L = L0\<lparr>queue := butlast (queue L0)\<rparr>;
          s = s0\<lparr>discovered := discovered s0 @ [(name, version)]\<rparr>
      in case install_requirement C python_bin name version index
                (pipdeptree C python_bin name) s of
           (Inl (CommandError cmd return_code), s1) \<Rightarrow>
             (Inr (L\<lparr>errors := errors L @
                       [\<lparr>err_package_name = name, err_index = index, err_version = version,
                         err_type = ''command_error'',
                         err_details = CommandDetails cmd return_code\<rparr>]\<rparr>), s1)
         | (Inl err, s1) \<Rightarrow> (Inl err, s1)
         | (Inr Missing, s1) \<Rightarrow>
             (Inr (L\<lparr>errors := errors L @
                       [\<lparr>err_package_name = name, err_index = index, err_version = version,
                         err_type = ''not_site_package'',
                         err_details = Message ''Failed to get information about installed package, probably not site package''\<rparr>]\<rparr>),
              s1)
         | (Inr (Whole output), s1) \<Rightarrow>
             (Inl (TypeError ''list indices must be integers or slices, not str''), s1)
         | (Inr (Found package_info), s1) \<Rightarrow>
             (case create_entry C package_info (Some index) s1 of
                (Inl err, s2) \<Rightarrow> (Inl err, s2)
              | (Inr e, s2) \<Rightarrow>
                  (case dependencies_loop C transitive all_solvers (dependencies e)
                          ([], packages_seen L, queue L) s2 of
                     (Inl err, s3) \<Rightarrow> (Inl err, s3)
                   | (Inr (deps, seen, q), s3) \<Rightarrow>
                       (Inr (L\<lparr>packages := packages L @ [e\<lparr>dependencies := deps\<rparr>],
                               packages_seen := seen, queue := q\<rparr>), s3))))"

text \<open>
  The \<^verbatim>\<open>while queue:\<close> loop. Nothing bounds the number of its iterations (a solver can
  keep answering with versions never seen before), so the loop carries fuel: \<open>None\<close> says
  that the fuel ran out before the queue was empty.
\<close>

fun queue_loop ::
  "nat \<Rightarrow> 'w collaborators \<Rightarrow> string \<Rightarrow> string list \<Rightarrow> string \<Rightarrow> bool \<Rightarrow> locals \<Rightarrow> 'w state
     \<Rightarrow> ((error + locals) \<times> 'w state) option" where
  "queue_loop 0 C index all_solvers python_bin transitive L s =
     (if queue L = [] then Some (Inr L, s) else None)"
| "queue_loop (Suc fuel) C index all_solvers python_bin transitive L s =
     (if queue L = [] then Some (Inr L, s)
      else (case queue_step C index all_solvers python_bin transitive L s of
              (Inl err, s1) \<Rightarrow> Some (Inl err, s1)
            | (Inr L1, s1) \<Rightarrow> queue_loop fuel C index all_solvers python_bin transitive L1 s1))"

definition do_resolve_index ::
  "nat \<Rightarrow> 'w collaborators \<Rightarrow> string \<Rightarrow> string list \<Rightarrow> string list \<Rightarrow> int \<Rightarrow> string set option
     \<Rightarrow> bool \<Rightarrow> 'w state \<Rightarrow> ((error + pass_result) \<times> 'w state) option" where
  "do_resolve_index fuel C solver all_solvers requirements python_version exclude_packages transitive s =
     (let python_bin = (if python_version = 3 then ''python3'' else ''python2'')
      in case run_command C ''virtualenv -p python3 venv'' True s of
           (Inl err, s1) \<Rightarrow> Some (Inl err, s1)
         | (Inr r1, s1) \<Rightarrow>
             (let python_bin = ''venv/bin/'' @ python_bin
              in case run_command C (python_bin @ '' -m pip install pipdeptree'') True s1 of
                   (Inl err, s2) \<Rightarrow> Some (Inl err, s2)
                 | (Inr r2, s2) \<Rightarrow>
                     (let exclude = (case exclude_packages of None \<Rightarrow> {} | Some E \<Rightarrow> E);
                          L0 = \<lparr>packages_seen = {}, packages = [], errors = [], unresolved = [],
                                unparsed = [], queue = []\<rparr>
                      in case seed_loop C solver exclude requirements L0 s2 of
                           (Inl err, s3) \<Rightarrow> Some (Inl err, s3)
                         | (Inr L1, s3) \<Rightarrow>
                             (case get_environment_details C python_bin s3 of
                                (Inl err, s4) \<Rightarrow> Some (Inl err, s4)
                              | (Inr environment_details, s4) \<Rightarrow>
                                  (case queue_loop fuel C solver all_solvers python_bin transitive L1 s4 of
                                     None \<Rightarrow> None
                                   | Some (Inl err, s5) \<Rightarrow> Some (Inl err, s5)
                                   | Some (Inr L2, s5) \<Rightarrow>
                                       Some (Inr \<lparr>tree = packages L2, res_errors = errors L2,
                                                  res_unparsed = unparsed L2,
                                                  res_unresolved = unresolved L2,
                                                  environment = environment_details\<rparr>, s5))))))"

subsection \<open>\<^verbatim>\<open>resolve\<close>\<close>

text \<open>The loop over the solvers, one pass each; every pass gets the same fuel.\<close>

fun passes_loop ::
  "nat \<Rightarrow> 'w collaborators \<Rightarrow> string list \<Rightarrow> string list \<Rightarrow> string list \<Rightarrow> int \<Rightarrow> string set option
     \<Rightarrow> bool \<Rightarrow> pass_result list \<Rightarrow> 'w state \<Rightarrow> ((error + pass_result list) \<times> 'w state) option" where
  "passes_loop fuel C all_solvers [] requirements python_version exclude_packages transitive result s =
     Some (Inr result, s)"
| "passes_loop fuel C all_solvers (solver # solvers) requirements python_version exclude_packages transitive result s =
     (case do_resolve_index fuel C solver all_solvers requirements python_version exclude_packages transitive s of
        None \<Rightarrow> None
      | Some (Inl err, s1) \<Rightarrow> Some (Inl err, s1)
      | Some (Inr r, s1) \<Rightarrow>
          passes_loop fuel C all_solvers solvers requirements python_version exclude_packages transitive
            (result @ [r]) s1)"

text \<open>
  Modelled from the spec: the constructors \<^verbatim>\<open>Source(index_url)\<close> and
  \<^verbatim>\<open>PythonSolver(fetcher_kwargs={'source': source})\<close> are not part of the module; the
  solver built for an index is the one bound to that index's URL, in the order given.
\<close>

definition resolve ::
  "nat \<Rightarrow> 'w collaborators \<Rightarrow> string list \<Rightarrow> string list option \<Rightarrow> int \<Rightarrow> string set option
     \<Rightarrow> bool \<Rightarrow> 'w state \<Rightarrow> ((error + pass_result list) \<times> 'w state) option" where
  "resolve fuel C requirements index_urls python_version exclude_packages transitive s =
     (if python_version \<noteq> 2 \<and> python_version \<noteq> 3
      then Some (Inl (AssertionError ''Unknown Python version''), s)
      else (case index_urls of
              None \<Rightarrow>
                Some (Inl (TypeError ([apostrophe] @ ''NoneType'' @ [apostrophe] @ '' object is not iterable'')), s)
            | Some urls \<Rightarrow>
                (let all_solvers = urls
                 in passes_loop fuel C all_solvers all_solvers requirements python_version
                      exclude_packages transitive [] s)))"

section \<open>Concrete collaborators\<close>

text \<open>
  Small collaborators on which the module can be run. In \<open>demo\<close> every command succeeds
  and the inventory always lists three packages, \<open>a\<close> (which depends on \<open>b\<close>),
  \<open>b\<close> and \<open>foo\<close>; every requirement parses to its own text as the name, and every
  index resolves every name to the single version \<open>1\<close>.
\<close>

definition demo_inventory :: "pipdeptree_entry list" where
  "demo_inventory =
     [\<lparr>pt_package = \<lparr>pkg_key = ''a'', pkg_package_name = ''a'', pkg_installed_version = ''1''\<rparr>,
       pt_dependencies = [\<lparr>dj_key = ''b'', dj_package_name = ''b'', dj_installed_version = ''1'',
                           dj_required_version = Some ''>=1''\<rparr>]\<rparr>,
      \<lparr>pt_package = \<lparr>pkg_key = ''b'', pkg_package_name = ''b'', pkg_installed_version = ''1''\<rparr>,
       pt_dependencies = []\<rparr>,
      \<lparr>pt_package = \<lparr>pkg_key = ''foo'', pkg_package_name = ''foo'', pkg_installed_version = ''1''\<rparr>,
       pt_dependencies = []\<rparr>]"

definition demo :: "unit collaborators" where
  "demo =
     \<lparr>exec = (\<lambda>cmd w. ((0, demo_inventory), w)),
      parse_python = (\<lambda>r. Inr \<lparr>pd_name = r, pd_spec = []\<rparr>),
      solve = (\<lambda>url reqs w. (Inr [(hd reqs, [''1''])], w)),
      get_package_hashes = (\<lambda>url n v w. (Inr [], w))\<rparr>"

definition start :: "unit state" where
  "start = \<lparr>world = (), commands = [], discovered = []\<rparr>"

text \<open>
  In \<open>flaky\<close> the world counts the commands run so far; the third command fails and
  every other one succeeds, on an empty inventory.
\<close>

definition flaky :: "nat collaborators" where
  "flaky =
     \<lparr>exec = (\<lambda>cmd w. ((if w = 2 then 1 else 0, []), Suc w)),
      parse_python = (\<lambda>r. Inr \<lparr>pd_name = r, pd_spec = []\<rparr>),
      solve = (\<lambda>url reqs w. (Inr [(hd reqs, [''1''])], w)),
      get_package_hashes = (\<lambda>url n v w. (Inr [], w))\<rparr>"




section \<open>Predicates of the statements\<close>

text \<open>
  From state \<open>s\<close> to state \<open>s'\<close> commands were only added, and every added command begins
  with \<open>p\<close>.
\<close>

definition issues :: "string \<Rightarrow> 'w state \<Rightarrow> 'w state \<Rightarrow> bool" where
  "issues p s s' \<longleftrightarrow> (\<exists>cs. commands s' = commands s @ cs \<and> list_all (prefix p) cs)"

text \<open>
  The visited-set and the queue grew together: the queue got, once each, exactly the pairs
  that are new in the visited-set.
\<close>

definition grows ::
  "package_key set \<Rightarrow> package_key list \<Rightarrow> package_key set \<Rightarrow> package_key list \<Rightarrow> bool" where
  "grows seen q seen' q' \<longleftrightarrow>
     seen \<subseteq> seen' \<and> (\<exists>new. q' = q @ new \<and> distinct new \<and> set new = seen' - seen)"



text \<open>A dependency carries resolved versions, one record per solver, in the solvers' order.\<close>

definition complete :: "string list \<Rightarrow> dependency \<Rightarrow> bool" where
  "complete all_solvers d \<longleftrightarrow>
     (\<exists>rvs. dep_resolved_versions d = Some rvs \<and> map rv_index rvs = all_solvers)"






section \<open>Properties\<close>

lemmas eval_defs = resolve_def do_resolve_index_def run_command_def queue_step_def install_requirement_def
  install_requirement_enter_def install_requirement_exit_def uninstall_def pipdeptree_def create_entry_def
  get_environment_details_def resolve_versions_def get_dependency_specification_def
  lower_def lower_char_def quote_def safe_char_def apostrophe_def double_quote_def Let_def

subsection \<open>The seed loop\<close>

lemma seed_versions_eq:
  "seed_versions name versions L =
     L\<lparr>packages_seen := packages_seen L \<union> Pair name ` set versions,
       queue := queue L @ map (Pair name) versions\<rparr>"
  by (induction versions arbitrary: L) auto

text \<open>
  C9. The exclusion test of the seed loop is membership of the parsed name in
  \<^verbatim>\<open>exclude_packages\<close>, letter for letter. A requirement whose parsed name is not in
  the set, although it equals a member of the set up to letter case, is processed exactly
  as it would be with nothing excluded: its range is resolved at the pass's own index and
  every resolved version is added to the visited-set and appended to the queue.
\<close>

theorem seed_exclusion_is_case_sensitive:
  assumes "parse_python C requirement = Inr dep"
    and "pd_name dep \<notin> exclude_packages"
    and "lower (pd_name dep) \<in> lower ` exclude_packages"
  shows "seed_loop C index exclude_packages [requirement] L s = seed_loop C index {} [requirement] L s
       \<and> (\<forall>versions s1.
             resolve_versions C index (pd_name dep) (Some (get_dependency_specification (pd_spec dep))) s
               = (Inr versions, s1) \<and> versions \<noteq> [] \<longrightarrow>
             seed_loop C index exclude_packages [requirement] L s
               = (Inr (L\<lparr>packages_seen := packages_seen L \<union> Pair (pd_name dep) ` set versions,
                         queue := queue L @ map (Pair (pd_name dep)) versions\<rparr>), s1))"
  using assms(1,2) by (auto simp: seed_versions_eq Let_def split: prod.splits sum.splits)

theorem seed_exclusion_is_case_sensitive_witness:
  "parse_python demo ''Foo'' = Inr \<lparr>pd_name = ''Foo'', pd_spec = []\<rparr>
   \<and> ''Foo'' \<notin> {''foo''}
   \<and> lower ''Foo'' \<in> lower ` {''foo''}
   \<and> seed_loop demo ''idx'' {''foo''} [''Foo'']
        \<lparr>packages_seen = {}, packages = [], errors = [], unresolved = [], unparsed = [], queue = []\<rparr>
        start
      = (Inr \<lparr>packages_seen = {(''Foo'', ''1'')}, packages = [], errors = [], unresolved = [],
               unparsed = [], queue = [(''Foo'', ''1'')]\<rparr>, start)"
proof -
  have p: "parse_python demo ''Foo'' = Inr \<lparr>pd_name = ''Foo'', pd_spec = []\<rparr>"
    by (simp add: demo_def)
  have n: "pd_name \<lparr>pd_name = ''Foo'', pd_spec = []\<rparr> \<notin> {''foo''}"
    by simp
  have l: "lower (pd_name \<lparr>pd_name = ''Foo'', pd_spec = []\<rparr>) \<in> lower ` {''foo''}"
    by (simp add: lower_def lower_char_def)
  have r: "resolve_versions demo ''idx'' ''Foo'' (Some (get_dependency_specification [])) start
           = (Inr [''1''], start)"
    by (simp add: resolve_versions_def demo_def get_dependency_specification_def start_def)
  from seed_exclusion_is_case_sensitive [OF p n l, of "''idx''"
      "\<lparr>packages_seen = {}, packages = [], errors = [], unresolved = [], unparsed = [], queue = []\<rparr>"
      start] r p n l
  show ?thesis by (simp add: demo_def get_dependency_specification_def)
qed

subsection \<open>The probe on a failing inspection\<close>

text \<open>
  C1. The probe of \<open>foo\<close> in version \<open>1\<close> on \<open>flaky\<close>: the baseline query and the
  forced install succeed, and the inventory query inside the \<^verbatim>\<open>with\<close> body fails.
  The probe ends with that command's error and runs no further command: the package is
  neither reinstalled in a previous version nor uninstalled.
\<close>

theorem restore_skipped_when_inspection_raises:
  "install_requirement flaky ''venv/bin/python3'' ''foo'' ''1'' ''idx''
     (pipdeptree flaky ''venv/bin/python3'' ''foo'') \<lparr>world = 0, commands = [], discovered = []\<rparr>
   = (Inl (CommandError ''venv/bin/python3 -m pipdeptree --json'' 1),
      \<lparr>world = 3,
       commands = [''venv/bin/python3 -m pipdeptree --json'',
                   ''venv/bin/python3 -m pip install --force-reinstall --no-cache-dir --no-deps foo==1 --index-url '' @ [double_quote] @ ''idx'' @ [double_quote] @ '' '',
                   ''venv/bin/python3 -m pipdeptree --json''],
       discovered = []\<rparr>)"
  by (simp add: eval_defs flaky_def)

subsection \<open>A pair seeded twice\<close>

text \<open>
  C2. A pass on \<open>demo\<close> whose two seed requirements both resolve to \<open>foo\<close> in version
  \<open>1\<close>: the seed loop appends the pair to the queue twice, and the traversal announces
  and probes it twice.
\<close>

theorem seed_pair_probed_twice:
  "map_option (\<lambda>r. discovered (snd r))
     (do_resolve_index (Suc (Suc 0)) demo ''idx'' [''idx''] [''foo'', ''foo''] 3 None True start)
   = Some [(''foo'', ''1''), (''foo'', ''1'')]"
  by (simp add: eval_defs demo_def demo_inventory_def start_def)

lemma issues_refl: "commands s' = commands s \<Longrightarrow> issues p s s'"
  by (simp add: issues_def)

lemma issues_trans: "issues p s s1 \<Longrightarrow> issues p s1 s2 \<Longrightarrow> issues p s s2"
  by (auto simp: issues_def)

lemma run_command_frame:
  "run_command C cmd b s = (r, s') \<Longrightarrow> commands s' = commands s @ [cmd] \<and> discovered s' = discovered s"
  by (auto simp: run_command_def Let_def split: prod.splits if_splits)


lemma run_command_issues:
  "run_command C cmd b s = (r, s') \<Longrightarrow> prefix p cmd \<Longrightarrow> issues p s s'"
  by (auto simp: issues_def dest: run_command_frame)

lemma resolve_versions_frame:
  "resolve_versions C u n spec s = (r, s') \<Longrightarrow> commands s' = commands s \<and> discovered s' = discovered s"
  by (auto simp: resolve_versions_def split: prod.splits sum.splits if_splits)

lemma resolve_versions_error:
  "resolve_versions C u n spec s = (Inl e, s') \<Longrightarrow>
     e = AssertionError ''Resolution of one package version ended with multiple packages.''"
  by (auto simp: resolve_versions_def split: prod.splits sum.splits if_splits)

lemma create_entry_frame:
  "create_entry C e src s = (r, s') \<Longrightarrow> commands s' = commands s \<and> discovered s' = discovered s"
  by (auto simp: create_entry_def Let_def split: prod.splits sum.splits option.splits)

lemma create_entry_error:
  "create_entry C e src s = (Inl err, s') \<Longrightarrow> \<exists>msg. err = SourceError msg"
  by (auto simp: create_entry_def Let_def split: prod.splits sum.splits option.splits)


lemma create_entries_None:
  "\<exists>xs. create_entries C es s = (Inr xs, s)"
  by (induction es) (auto simp: create_entry_def Let_def)

lemma get_environment_details_frame:
  "get_environment_details C pb s = (r, s') \<Longrightarrow>
     commands s' = commands s @ [pb @ '' -m pipdeptree --json''] \<and> discovered s' = discovered s"
  using create_entries_None [of C]
  by (auto simp: get_environment_details_def split: prod.splits sum.splits dest!: run_command_frame)
     (metis Pair_inject)+

lemma prefix_m: "prefix (pb @ '' -m '') (pb @ CHR '' '' # CHR ''-'' # CHR ''m'' # CHR '' '' # rest)"
  by simp

lemma pipdeptree_frame:
  "pipdeptree C pb name s = (r, s') \<Longrightarrow>
     commands s' = commands s @ [pb @ '' -m pipdeptree --json''] \<and> discovered s' = discovered s"
  by (auto simp: pipdeptree_def split: prod.splits sum.splits if_splits option.splits dest!: run_command_frame)

lemma pipdeptree_issues: "pipdeptree C pb name s = (r, s') \<Longrightarrow> issues (pb @ '' -m '') s s'"
  by (auto simp: issues_def dest!: pipdeptree_frame)


lemma install_requirement_enter_frame:
  "install_requirement_enter C pb package version index s = (r, s') \<Longrightarrow>
     issues (pb @ '' -m '') s s' \<and> discovered s' = discovered s"
  by (auto simp: install_requirement_enter_def Let_def issues_def
           split: prod.splits sum.splits if_splits dest!: run_command_frame pipdeptree_frame)


lemma uninstall_frame:
  "uninstall C pb package s = (r, s') \<Longrightarrow> issues (pb @ '' -m '') s s' \<and> discovered s' = discovered s"
  by (auto simp: uninstall_def issues_def split: prod.splits sum.splits dest!: run_command_frame)


lemma install_requirement_exit_frame:
  "install_requirement_exit C pb package clean previous s = (r, s') \<Longrightarrow>
     issues (pb @ '' -m '') s s' \<and> discovered s' = discovered s"
  by (auto simp: install_requirement_exit_def issues_def
           split: prod.splits sum.splits if_splits pipdeptree_result.splits
           dest!: run_command_frame uninstall_frame)


lemma install_requirement_frame:
  assumes "install_requirement C pb package version index body s = (r, s')"
    and "\<And>s1 r1 s2. body s1 = (r1, s2) \<Longrightarrow> issues (pb @ '' -m '') s1 s2 \<and> discovered s2 = discovered s1"
  shows "issues (pb @ '' -m '') s s' \<and> discovered s' = discovered s"
  using assms(1)
  by (auto simp: install_requirement_def split: prod.splits sum.splits
           dest!: install_requirement_enter_frame install_requirement_exit_frame assms(2)
           intro: issues_trans)

subsection \<open>The loops of the traversal\<close>

lemma versions_loop_eq:
  "versions_loop n vs (seen, q) = (seen', q') \<Longrightarrow>
     seen' = seen \<union> Pair n ` set vs \<and>
     (\<exists>new. q' = q @ new \<and> distinct new \<and> set new = Pair n ` set vs - seen)"
proof (induction vs arbitrary: seen q)
  case Nil
  then show ?case by simp
next
  case (Cons v vs)
  show ?case
  proof (cases "(n, v) \<in> seen")
    case True
    with Cons.prems have "versions_loop n vs (seen, q) = (seen', q')" by simp
    from Cons.IH [OF this] True show ?thesis by auto
  next
    case False
    with Cons.prems have "versions_loop n vs (insert (n, v) seen, q @ [(n, v)]) = (seen', q')" by simp
    from Cons.IH [OF this] obtain new where
      s: "seen' = insert (n, v) seen \<union> Pair n ` set vs" and
      q: "q' = (q @ [(n, v)]) @ new" and d: "distinct new" and
      n: "set new = Pair n ` set vs - insert (n, v) seen" by blast
    have "q' = q @ ((n, v) # new)" using q by simp
    moreover have "distinct ((n, v) # new)" using d n by auto
    moreover have "set ((n, v) # new) = Pair n ` set (v # vs) - seen" using n False by auto
    ultimately show ?thesis using s by (intro conjI exI [of _ "(n, v) # new"]) auto
  qed
qed

lemma grows_refl: "grows seen q seen q"
  by (simp add: grows_def)

lemma grows_trans:
  assumes "grows seen q seen1 q1" and "grows seen1 q1 seen2 q2"
  shows "grows seen q seen2 q2"
proof -
  from assms obtain n1 n2 where
    a: "seen \<subseteq> seen1" "q1 = q @ n1" "distinct n1" "set n1 = seen1 - seen" and
    b: "seen1 \<subseteq> seen2" "q2 = q1 @ n2" "distinct n2" "set n2 = seen2 - seen1"
    unfolding grows_def by blast
  have "q2 = q @ (n1 @ n2)" using a b by simp
  moreover have "distinct (n1 @ n2)" using a b by auto
  moreover have "set (n1 @ n2) = seen2 - seen" using a b by auto
  ultimately show ?thesis unfolding grows_def using a(1) b(1) by blast
qed

lemma versions_loop_grows:
  "versions_loop n vs (seen, q) = (seen', q') \<Longrightarrow> grows seen q seen' q'"
  by (drule versions_loop_eq) (auto simp: grows_def)

lemma solvers_loop_Cons_cases:
  assumes "solvers_loop C tr n rng (u # us) (rvs, seen, q) s = (r, s')"
  obtains (raised) e where "resolve_versions C u n rng s = (Inl e, s')" and "r = Inl e"
  | (resolved) vs s1 seen1 q1 where "resolve_versions C u n rng s = (Inr vs, s1)"
      and "(if tr then versions_loop n vs (seen, q) else (seen, q)) = (seen1, q1)"
      and "solvers_loop C tr n rng us (rvs @ [\<lparr>rv_versions = vs, rv_index = u\<rparr>], seen1, q1) s1 = (r, s')"
  using assms by (auto simp: Let_def split: prod.splits sum.splits if_splits)

lemma solvers_loop_frame:
  "solvers_loop C tr n rng solvers acc s = (r, s') \<Longrightarrow>
     commands s' = commands s \<and> discovered s' = discovered s"
proof (induction solvers arbitrary: acc s)
  case Nil
  then show ?case by simp
next
  case (Cons u us)
  obtain rvs seen q where acc: "acc = (rvs, seen, q)" by (cases acc)
  from Cons.prems [unfolded acc] show ?case
  proof (cases rule: solvers_loop_Cons_cases)
    case (raised e)
    then show ?thesis by (auto dest: resolve_versions_frame)
  next
    case (resolved vs s1 seen1 q1)
    from Cons.IH [OF resolved(3)] resolve_versions_frame [OF resolved(1)] show ?thesis by simp
  qed
qed

lemma solvers_loop_error:
  "solvers_loop C tr n rng solvers acc s = (Inl e, s') \<Longrightarrow>
     e = AssertionError ''Resolution of one package version ended with multiple packages.''"
proof (induction solvers arbitrary: acc s)
  case Nil
  then show ?case by simp
next
  case (Cons u us)
  obtain rvs seen q where acc: "acc = (rvs, seen, q)" by (cases acc)
  from Cons.prems [unfolded acc] show ?case
  proof (cases rule: solvers_loop_Cons_cases)
    case (raised e')
    then show ?thesis by (auto dest: resolve_versions_error)
  next
    case (resolved vs s1 seen1 q1)
    from Cons.IH [OF resolved(3)] show ?thesis .
  qed
qed

lemma solvers_loop_index:
  "solvers_loop C tr n rng solvers (rvs, seen, q) s = (Inr (rvs', seen', q'), s') \<Longrightarrow>
     map rv_index rvs' = map rv_index rvs @ solvers"
proof (induction solvers arbitrary: rvs seen q s)
  case Nil
  then show ?case by simp
next
  case (Cons u us)
  from Cons.prems show ?case
  proof (cases rule: solvers_loop_Cons_cases)
    case (raised e)
    then show ?thesis by simp
  next
    case (resolved vs s1 seen1 q1)
    from Cons.IH [OF resolved(3)] show ?thesis by simp
  qed
qed

lemma solvers_loop_not_transitive:
  "solvers_loop C False n rng solvers (rvs, seen, q) s = (Inr (rvs', seen', q'), s') \<Longrightarrow>
     seen' = seen \<and> q' = q"
proof (induction solvers arbitrary: rvs s)
  case Nil
  then show ?case by simp
next
  case (Cons u us)
  from Cons.prems show ?case
  proof (cases rule: solvers_loop_Cons_cases)
    case (raised e)
    then show ?thesis by simp
  next
    case (resolved vs s1 seen1 q1)
    from resolved(2) have "seen1 = seen" "q1 = q" by simp_all
    with Cons.IH [of _ s1] resolved(3) show ?thesis by simp
  qed
qed

lemma solvers_loop_grows:
  "solvers_loop C tr n rng solvers (rvs, seen, q) s = (Inr (rvs', seen', q'), s') \<Longrightarrow>
     grows seen q seen' q'"
proof (induction solvers arbitrary: rvs seen q s)
  case Nil
  then show ?case by (simp add: grows_refl)
next
  case (Cons u us)
  from Cons.prems show ?case
  proof (cases rule: solvers_loop_Cons_cases)
    case (raised e)
    then show ?thesis by simp
  next
    case (resolved vs s1 seen1 q1)
    from resolved(2) have "grows seen q seen1 q1"
      by (auto split: if_splits dest: versions_loop_grows simp: grows_refl)
    with Cons.IH [OF resolved(3)] show ?thesis by (rule grows_trans [rotated])
  qed
qed




lemma dependencies_loop_Cons_cases:
  assumes "dependencies_loop C tr all_solvers (d # ds) (filled, seen, q) s = (r, s')"
  obtains (raised) e where
      "solvers_loop C tr (dep_package_name d) (dep_required_version d) all_solvers ([], seen, q) s = (Inl e, s')"
      and "r = Inl e"
  | (resolved) rvs seen1 q1 s1 where
      "solvers_loop C tr (dep_package_name d) (dep_required_version d) all_solvers ([], seen, q) s
         = (Inr (rvs, seen1, q1), s1)"
      and "dependencies_loop C tr all_solvers ds
             (filled @ [d\<lparr>dep_resolved_versions := Some rvs\<rparr>], seen1, q1) s1 = (r, s')"
  using assms by (auto split: prod.splits sum.splits)

lemma dependencies_loop_frame:
  "dependencies_loop C tr all_solvers ds acc s = (r, s') \<Longrightarrow>
     commands s' = commands s \<and> discovered s' = discovered s"
proof (induction ds arbitrary: acc s)
  case Nil
  then show ?case by simp
next
  case (Cons d ds)
  obtain filled seen q where acc: "acc = (filled, seen, q)" by (cases acc)
  from Cons.prems [unfolded acc] show ?case
  proof (cases rule: dependencies_loop_Cons_cases)
    case (raised e)
    then show ?thesis by (auto dest: solvers_loop_frame)
  next
    case (resolved rvs seen1 q1 s1)
    from Cons.IH [OF resolved(2)] solvers_loop_frame [OF resolved(1)] show ?thesis by simp
  qed
qed

lemma dependencies_loop_error:
  "dependencies_loop C tr all_solvers ds acc s = (Inl e, s') \<Longrightarrow>
     e = AssertionError ''Resolution of one package version ended with multiple packages.''"
proof (induction ds arbitrary: acc s)
  case Nil
  then show ?case by simp
next
  case (Cons d ds)
  obtain filled seen q where acc: "acc = (filled, seen, q)" by (cases acc)
  from Cons.prems [unfolded acc] show ?case
  proof (cases rule: dependencies_loop_Cons_cases)
    case (raised e')
    then show ?thesis by (auto dest: solvers_loop_error)
  next
    case (resolved rvs seen1 q1 s1)
    from Cons.IH [OF resolved(2)] show ?thesis .
  qed
qed

lemma dependencies_loop_complete:
  "dependencies_loop C tr all_solvers ds (filled, seen, q) s = (Inr (filled', seen', q'), s') \<Longrightarrow>
     list_all (complete all_solvers) filled \<Longrightarrow> list_all (complete all_solvers) filled'"
proof (induction ds arbitrary: filled seen q s)
  case Nil
  then show ?case by simp
next
  case (Cons d ds)
  from Cons.prems(1) show ?case
  proof (cases rule: dependencies_loop_Cons_cases)
    case (raised e)
    then show ?thesis by simp
  next
    case (resolved rvs seen1 q1 s1)
    from solvers_loop_index [OF resolved(1)] have "map rv_index rvs = all_solvers" by simp
    then have "complete all_solvers (d\<lparr>dep_resolved_versions := Some rvs\<rparr>)"
      by (simp add: complete_def)
    with Cons.prems(2)
    have "list_all (complete all_solvers) (filled @ [d\<lparr>dep_resolved_versions := Some rvs\<rparr>])"
      by simp
    from Cons.IH [OF resolved(2) this] show ?thesis .
  qed
qed

lemma dependencies_loop_not_transitive:
  "dependencies_loop C False all_solvers ds (filled, seen, q) s = (Inr (filled', seen', q'), s') \<Longrightarrow>
     seen' = seen \<and> q' = q"
proof (induction ds arbitrary: filled s)
  case Nil
  then show ?case by simp
next
  case (Cons d ds)
  from Cons.prems show ?case
  proof (cases rule: dependencies_loop_Cons_cases)
    case (raised e)
    then show ?thesis by simp
  next
    case (resolved rvs seen1 q1 s1)
    from solvers_loop_not_transitive [OF resolved(1)] have "seen1 = seen" "q1 = q" by simp_all
    with Cons.IH [of _ s1] resolved(2) show ?thesis by simp
  qed
qed

lemma dependencies_loop_grows:
  "dependencies_loop C tr all_solvers ds (filled, seen, q) s = (Inr (filled', seen', q'), s') \<Longrightarrow>
     grows seen q seen' q'"
proof (induction ds arbitrary: filled seen q s)
  case Nil
  then show ?case by (simp add: grows_refl)
next
  case (Cons d ds)
  from Cons.prems show ?case
  proof (cases rule: dependencies_loop_Cons_cases)
    case (raised e)
    then show ?thesis by simp
  next
    case (resolved rvs seen1 q1 s1)
    from solvers_loop_grows [OF resolved(1)] Cons.IH [OF resolved(2)]
    show ?thesis by (rule grows_trans)
  qed
qed


subsection \<open>One iteration of the traversal\<close>

lemma queue_step_cases:
  assumes "queue_step C index all_solvers pb tr L s = (r, s')"
  obtains (recorded) x where
      "r = Inr (L\<lparr>queue := butlast (queue L), errors := errors L @ [x]\<rparr>)"
  | (raised) e where "r = Inl e" and "\<And>cmd rc. e \<noteq> CommandError cmd rc"
  | (probed) info s1 e s2 deps seen q where
      "create_entry C info (Some index) s1 = (Inr e, s2)"
      and "dependencies_loop C tr all_solvers (dependencies e)
             ([], packages_seen L, butlast (queue L)) s2 = (Inr (deps, seen, q), s')"
      and "r = Inr (L\<lparr>queue := q, packages := packages L @ [e\<lparr>dependencies := deps\<rparr>],
                      packages_seen := seen\<rparr>)"
  using assms
  by (auto simp: queue_step_def Let_def
           split: prod.splits sum.splits error.splits pipdeptree_result.splits
           dest: create_entry_error dependencies_loop_error)

lemma probe_frame:
  "install_requirement C pb name version index (pipdeptree C pb name) s = (r, s') \<Longrightarrow>
     issues (pb @ '' -m '') s s' \<and> discovered s' = discovered s"
  by (erule install_requirement_frame) (auto dest: pipdeptree_frame pipdeptree_issues)

lemma queue_step_frame:
  assumes "queue_step C index all_solvers pb tr L s = (r, s')"
  shows "discovered s' = discovered s @ [last (queue L)] \<and> issues (pb @ '' -m '') s s'"
proof -
  let ?s0 = "s\<lparr>discovered := discovered s @ [(fst (last (queue L)), snd (last (queue L)))]\<rparr>"
  obtain r1 s1 where p: "install_requirement C pb (fst (last (queue L))) (snd (last (queue L))) index
      (pipdeptree C pb (fst (last (queue L)))) ?s0 = (r1, s1)" by (cases "install_requirement C pb (fst (last (queue L))) (snd (last (queue L))) index
      (pipdeptree C pb (fst (last (queue L)))) ?s0")
  from probe_frame [OF p] have f1: "issues (pb @ '' -m '') s s1" "discovered s1 = discovered s @ [last (queue L)]"
    by (auto simp: issues_def)
  have "commands s' = commands s1 \<and> discovered s' = discovered s1"
    using assms p
    by (auto simp: queue_step_def Let_def
             split: prod.splits sum.splits error.splits pipdeptree_result.splits
             dest!: create_entry_frame dependencies_loop_frame)
  with f1 show ?thesis by (auto simp: issues_def)
qed

lemma queue_step_grows:
  assumes "queue_step C index all_solvers pb tr L s = (Inr L', s')"
  shows "grows (packages_seen L) (butlast (queue L)) (packages_seen L') (queue L')"
  using assms
proof (cases rule: queue_step_cases)
  case (recorded x)
  then show ?thesis by (auto simp: grows_refl)
next
  case (raised e)
  then show ?thesis by simp
next
  case (probed info s1 e s2 deps seen q)
  from dependencies_loop_grows [OF probed(2)] probed(3) show ?thesis by auto
qed

lemma queue_step_not_transitive:
  assumes "queue_step C index all_solvers pb False L s = (Inr L', s')"
  shows "packages_seen L' = packages_seen L \<and> queue L' = butlast (queue L)"
  using assms
proof (cases rule: queue_step_cases)
  case (recorded x)
  then show ?thesis by auto
next
  case (raised e)
  then show ?thesis by simp
next
  case (probed info s1 e s2 deps seen q)
  from dependencies_loop_not_transitive [OF probed(2)] probed(3) show ?thesis by auto
qed

lemma queue_step_results:
  assumes "queue_step C index all_solvers pb tr L s = (Inr L', s')"
  shows "unresolved L' = unresolved L \<and> unparsed L' = unparsed L
       \<and> length (packages L') + length (errors L') = Suc (length (packages L) + length (errors L))"
  using assms by (cases rule: queue_step_cases) auto

lemma queue_step_complete:
  assumes "queue_step C index all_solvers pb tr L s = (Inr L', s')"
    and "\<forall>e \<in> set (packages L). list_all (complete all_solvers) (dependencies e)"
  shows "\<forall>e \<in> set (packages L'). list_all (complete all_solvers) (dependencies e)"
  using assms(1)
proof (cases rule: queue_step_cases)
  case (recorded x)
  with assms(2) show ?thesis by auto
next
  case (raised e)
  then show ?thesis by simp
next
  case (probed info s1 e s2 deps seen q)
  from dependencies_loop_complete [OF probed(2)] have "list_all (complete all_solvers) deps" by simp
  with assms(2) probed(3) show ?thesis by auto
qed


lemma queue_step_error:
  "queue_step C index all_solvers pb tr L s = (Inl e, s') \<Longrightarrow> e \<noteq> CommandError cmd rc"
  by (erule queue_step_cases) auto

subsection \<open>The traversal loop\<close>

lemma queue_loop_Suc_cases:
  assumes "queue_loop fuel C index all_solvers pb tr L s = Some (r, s')"
  obtains (empty) "queue L = []" and "r = Inr L" and "s' = s"
  | (raised) n e where "fuel = Suc n" and "queue L \<noteq> []"
      and "queue_step C index all_solvers pb tr L s = (Inl e, s')" and "r = Inl e"
  | (stepped) n L1 s1 where "fuel = Suc n" and "queue L \<noteq> []"
      and "queue_step C index all_solvers pb tr L s = (Inr L1, s1)"
      and "queue_loop n C index all_solvers pb tr L1 s1 = Some (r, s')"
  using assms by (cases fuel) (auto split: if_splits prod.splits sum.splits)

lemma queue_loop_frame:
  "queue_loop fuel C index all_solvers pb tr L s = Some (r, s') \<Longrightarrow>
     issues (pb @ '' -m '') s s' \<and> (\<exists>ds. discovered s' = discovered s @ ds)"
proof (induction fuel arbitrary: L s)
  case 0
  then show ?case by (auto simp: issues_def split: if_splits)
next
  case (Suc fuel)
  from Suc.prems show ?case
  proof (cases rule: queue_loop_Suc_cases)
    case empty
    then show ?thesis by (simp add: issues_def)
  next
    case (raised n e)
    from queue_step_frame [OF raised(3)] show ?thesis by simp
  next
    case (stepped n L1 s1)
    then have "queue_loop fuel C index all_solvers pb tr L1 s1 = Some (r, s')" by simp
    from Suc.IH [OF this] queue_step_frame [OF stepped(3)] show ?thesis
      by (auto intro: issues_trans)
  qed
qed

lemma queue_loop_error:
  "queue_loop fuel C index all_solvers pb tr L s = Some (Inl e, s') \<Longrightarrow> e \<noteq> CommandError cmd rc"
proof (induction fuel arbitrary: L s)
  case 0
  then show ?case by (auto split: if_splits)
next
  case (Suc fuel)
  from Suc.prems show ?case
  proof (cases rule: queue_loop_Suc_cases)
    case empty
    then show ?thesis by simp
  next
    case (raised n e')
    then show ?thesis by (auto dest: queue_step_error)
  next
    case (stepped n L1 s1)
    then have "queue_loop fuel C index all_solvers pb tr L1 s1 = Some (Inl e, s')" by simp
    from Suc.IH [OF this] show ?thesis .
  qed
qed


lemma queue_loop_complete:
  "queue_loop fuel C index all_solvers pb tr L s = Some (Inr L', s') \<Longrightarrow>
     \<forall>e \<in> set (packages L). list_all (complete all_solvers) (dependencies e) \<Longrightarrow>
     \<forall>e \<in> set (packages L'). list_all (complete all_solvers) (dependencies e)"
proof (induction fuel arbitrary: L s)
  case 0
  then show ?case by (auto split: if_splits)
next
  case (Suc fuel)
  from Suc.prems(1) show ?case
  proof (cases rule: queue_loop_Suc_cases)
    case empty
    with Suc.prems(2) show ?thesis by simp
  next
    case (raised n e)
    then show ?thesis by simp
  next
    case (stepped n L1 s1)
    then have l: "queue_loop fuel C index all_solvers pb tr L1 s1 = Some (Inr L', s')" by simp
    from Suc.IH [OF l queue_step_complete [OF stepped(3) Suc.prems(2)]] show ?thesis .
  qed
qed



text \<open>Without transitive expansion the loop pops the queue it was given and nothing else.\<close>

lemma queue_loop_not_transitive:
  "queue_loop fuel C index all_solvers pb False L s = Some (Inr L', s') \<Longrightarrow>
     packages_seen L' = packages_seen L \<and> discovered s' = discovered s @ rev (queue L)
     \<and> length (packages L') + length (errors L')
         = length (packages L) + length (errors L) + length (queue L)"
proof (induction fuel arbitrary: L s)
  case 0
  then show ?case by (auto split: if_splits)
next
  case (Suc fuel)
  from Suc.prems(1) show ?case
  proof (cases rule: queue_loop_Suc_cases)
    case empty
    then show ?thesis by simp
  next
    case (raised n e)
    then show ?thesis by simp
  next
    case (stepped n L1 s1)
    then have l: "queue_loop fuel C index all_solvers pb False L1 s1 = Some (Inr L', s')" by simp
    have "queue L = butlast (queue L) @ [last (queue L)]" using stepped(2) by simp
    then have "rev (queue L) = rev (butlast (queue L) @ [last (queue L)])" by simp
    then have r: "rev (queue L) = last (queue L) # rev (butlast (queue L))" by simp
    have len: "0 < length (queue L)" using stepped(2) by simp
    from queue_step_not_transitive [OF stepped(3)]
    have a: "packages_seen L1 = packages_seen L" "queue L1 = butlast (queue L)" by simp_all
    from queue_step_frame [OF stepped(3)]
    have b: "discovered s1 = discovered s @ [last (queue L)]" by simp
    from queue_step_results [OF stepped(3)]
    have c: "length (packages L1) + length (errors L1) = Suc (length (packages L) + length (errors L))"
      by simp
    from Suc.IH [OF l] have
      i1: "packages_seen L' = packages_seen L1" and
      i2: "discovered s' = discovered s1 @ rev (queue L1)" and
      i3: "length (packages L') + length (errors L')
             = length (packages L1) + length (errors L1) + length (queue L1)" by simp_all
    have "discovered s' = discovered s @ (last (queue L) # rev (butlast (queue L)))"
      using i2 a(2) b by simp
    then have "discovered s' = discovered s @ rev (queue L)" by (simp only: r)
    moreover have "length (packages L') + length (errors L')
         = length (packages L) + length (errors L) + length (queue L)"
      using i3 c a(2) len by simp
    ultimately show ?thesis using i1 a(1) by simp
  qed
qed

lemma queue_loop_not_transitive_returns:
  "length (queue L) \<le> fuel \<Longrightarrow> queue_loop fuel C index all_solvers pb False L s \<noteq> None"
proof (induction fuel arbitrary: L s)
  case 0
  then show ?case by simp
next
  case (Suc fuel)
  show ?case
  proof (cases "queue L = []")
    case True
    then show ?thesis by simp
  next
    case False
    obtain r s1 where st: "queue_step C index all_solvers pb False L s = (r, s1)"
      by (cases "queue_step C index all_solvers pb False L s")
    show ?thesis
    proof (cases r)
      case (Inl e)
      with st False show ?thesis by simp
    next
      case (Inr L1)
      from queue_step_not_transitive [OF st [unfolded Inr]] Suc.prems
      have "length (queue L1) \<le> fuel" by simp
      from Suc.IH [OF this] st Inr False show ?thesis by simp
    qed
  qed
qed

text \<open>
  When the queue holds no pair twice and only pairs of the visited-set, no pair is announced
  twice.
\<close>

lemma queue_loop_distinct:
  "queue_loop fuel C index all_solvers pb tr L s = Some (r, s') \<Longrightarrow>
     distinct (ds0 @ queue L) \<Longrightarrow> set (ds0 @ queue L) \<subseteq> packages_seen L \<Longrightarrow>
     \<exists>ds. discovered s' = discovered s @ ds \<and> distinct (ds0 @ ds)"
proof (induction fuel arbitrary: L s ds0)
  case 0
  then show ?case by (auto split: if_splits)
next
  case (Suc fuel)
  from Suc.prems(1) show ?case
  proof (cases rule: queue_loop_Suc_cases)
    case empty
    with Suc.prems(2) show ?thesis by simp
  next
    case (raised n e)
    have q: "queue L = butlast (queue L) @ [last (queue L)]" using raised(2) by simp
    have "distinct (ds0 @ [last (queue L)])"
      using Suc.prems(2) by (subst (asm) q) auto
    with queue_step_frame [OF raised(3)] show ?thesis by simp
  next
    case (stepped n L1 s1)
    then have l: "queue_loop fuel C index all_solvers pb tr L1 s1 = Some (r, s')" by simp
    have q: "queue L = butlast (queue L) @ [last (queue L)]" using stepped(2) by simp
    from queue_step_grows [OF stepped(3)] obtain new where
      g: "packages_seen L \<subseteq> packages_seen L1" "queue L1 = butlast (queue L) @ new"
         "distinct new" "set new = packages_seen L1 - packages_seen L"
      unfolding grows_def by blast
    have d: "distinct (ds0 @ butlast (queue L) @ [last (queue L)])"
      using Suc.prems(2) by (subst (asm) q) simp
    have s: "set ds0 \<union> set (butlast (queue L)) \<union> {last (queue L)} \<subseteq> packages_seen L"
      using Suc.prems(3) by (subst (asm) q) auto
    have d1: "distinct ((ds0 @ [last (queue L)]) @ queue L1)"
      using d s g by auto
    have s1: "set ((ds0 @ [last (queue L)]) @ queue L1) \<subseteq> packages_seen L1"
      using s g by auto
    from Suc.IH [OF l d1 s1] obtain ds1 where
      "discovered s' = discovered s1 @ ds1" "distinct ((ds0 @ [last (queue L)]) @ ds1)" by blast
    with queue_step_frame [OF stepped(3)] show ?thesis
      by (intro exI [of _ "last (queue L) # ds1"]) simp
  qed
qed

subsection \<open>The seed loop and the pass\<close>

lemma seed_loop_Cons_cases:
  assumes "seed_loop C index ex (requirement # requirements) L s = (r, s')"
  obtains (unparsed) exc where "parse_python C requirement = Inl exc"
      and "seed_loop C index ex requirements
             (L\<lparr>unparsed := unparsed L @ [\<lparr>unp_requirement = requirement, unp_details = exc\<rparr>]\<rparr>) s
           = (r, s')"
  | (excluded) dep where "parse_python C requirement = Inr dep" and "pd_name dep \<in> ex"
      and "seed_loop C index ex requirements L s = (r, s')"
  | (raised) dep e where "parse_python C requirement = Inr dep" and "pd_name dep \<notin> ex"
      and "resolve_versions C index (pd_name dep) (Some (get_dependency_specification (pd_spec dep))) s
           = (Inl e, s')" and "r = Inl e"
  | (unresolved) dep s1 where "parse_python C requirement = Inr dep" and "pd_name dep \<notin> ex"
      and "resolve_versions C index (pd_name dep) (Some (get_dependency_specification (pd_spec dep))) s
           = (Inr [], s1)"
      and "seed_loop C index ex requirements
             (L\<lparr>unresolved := unresolved L @
                   [\<lparr>unres_package_name = pd_name dep,
                     unres_version_spec = get_dependency_specification (pd_spec dep),
                     unres_index = index\<rparr>]\<rparr>) s1 = (r, s')"
  | (seeded) dep versions s1 where "parse_python C requirement = Inr dep" and "pd_name dep \<notin> ex"
      and "resolve_versions C index (pd_name dep) (Some (get_dependency_specification (pd_spec dep))) s
           = (Inr versions, s1)" and "versions \<noteq> []"
      and "seed_loop C index ex requirements (seed_versions (pd_name dep) versions L) s1 = (r, s')"
  using assms by (auto simp: Let_def split: prod.splits sum.splits if_splits)

lemma seed_loop_frame:
  "seed_loop C index ex requirements L s = (r, s') \<Longrightarrow>
     commands s' = commands s \<and> discovered s' = discovered s"
proof (induction requirements arbitrary: L s)
  case Nil
  then show ?case by simp
next
  case (Cons requirement requirements)
  from Cons.prems show ?case
  proof (cases rule: seed_loop_Cons_cases)
    case (unparsed exc)
    from Cons.IH [OF unparsed(2)] show ?thesis .
  next
    case (excluded dep)
    from Cons.IH [OF excluded(3)] show ?thesis .
  next
    case (raised dep e)
    from resolve_versions_frame [OF raised(3)] show ?thesis .
  next
    case (unresolved dep s1)
    from Cons.IH [OF unresolved(4)] resolve_versions_frame [OF unresolved(3)] show ?thesis by simp
  next
    case (seeded dep versions s1)
    from Cons.IH [OF seeded(5)] resolve_versions_frame [OF seeded(3)] show ?thesis by simp
  qed
qed


lemma seed_loop_seen:
  "seed_loop C index ex requirements L s = (Inr L', s') \<Longrightarrow>
     packages_seen L = set (queue L) \<Longrightarrow>
     packages_seen L' = set (queue L') \<and> packages L' = packages L \<and> errors L' = errors L"
proof (induction requirements arbitrary: L s)
  case Nil
  then show ?case by simp
next
  case (Cons requirement requirements)
  from Cons.prems(1) show ?case
  proof (cases rule: seed_loop_Cons_cases)
    case (unparsed exc)
    from Cons.IH [OF unparsed(2)] Cons.prems(2) show ?thesis by simp
  next
    case (excluded dep)
    from Cons.IH [OF excluded(3)] Cons.prems(2) show ?thesis by simp
  next
    case (raised dep e)
    then show ?thesis by simp
  next
    case (unresolved dep s1)
    from Cons.IH [OF unresolved(4)] Cons.prems(2) show ?thesis by simp
  next
    case (seeded dep versions s1)
    from Cons.IH [OF seeded(5)] Cons.prems(2) show ?thesis by (auto simp: seed_versions_eq)
  qed
qed

lemma do_resolve_index_cases:
  assumes "do_resolve_index fuel C solver all_solvers requirements pv ex tr s = Some (r, s')"
  obtains (virtualenv) e where
      "run_command C ''virtualenv -p python3 venv'' True s = (Inl e, s')" and "r = Inl e"
  | (pipdeptree) r1 s1 e where
      "run_command C ''virtualenv -p python3 venv'' True s = (Inr r1, s1)"
      and "run_command C ((''venv/bin/'' @ (if pv = 3 then ''python3'' else ''python2''))
                            @ '' -m pip install pipdeptree'') True s1 = (Inl e, s')"
      and "r = Inl e"
  | (seeds) r1 s1 r2 s2 e where
      "run_command C ''virtualenv -p python3 venv'' True s = (Inr r1, s1)"
      and "run_command C ((''venv/bin/'' @ (if pv = 3 then ''python3'' else ''python2''))
                            @ '' -m pip install pipdeptree'') True s1 = (Inr r2, s2)"
      and "seed_loop C solver (case ex of None \<Rightarrow> {} | Some E \<Rightarrow> E) requirements
             \<lparr>packages_seen = {}, packages = [], errors = [], unresolved = [], unparsed = [], queue = []\<rparr>
             s2 = (Inl e, s')"
      and "r = Inl e"
  | (baseline) r1 s1 r2 s2 L1 s3 e where
      "run_command C ''virtualenv -p python3 venv'' True s = (Inr r1, s1)"
      and "run_command C ((''venv/bin/'' @ (if pv = 3 then ''python3'' else ''python2''))
                            @ '' -m pip install pipdeptree'') True s1 = (Inr r2, s2)"
      and "seed_loop C solver (case ex of None \<Rightarrow> {} | Some E \<Rightarrow> E) requirements
             \<lparr>packages_seen = {}, packages = [], errors = [], unresolved = [], unparsed = [], queue = []\<rparr>
             s2 = (Inr L1, s3)"
      and "get_environment_details C (''venv/bin/'' @ (if pv = 3 then ''python3'' else ''python2'')) s3
             = (Inl e, s')"
      and "r = Inl e"
  | (traversal) r1 s1 r2 s2 L1 s3 env s4 e where
      "run_command C ''virtualenv -p python3 venv'' True s = (Inr r1, s1)"
      and "run_command C ((''venv/bin/'' @ (if pv = 3 then ''python3'' else ''python2''))
                            @ '' -m pip install pipdeptree'') True s1 = (Inr r2, s2)"
      and "seed_loop C solver (case ex of None \<Rightarrow> {} | Some E \<Rightarrow> E) requirements
             \<lparr>packages_seen = {}, packages = [], errors = [], unresolved = [], unparsed = [], queue = []\<rparr>
             s2 = (Inr L1, s3)"
      and "get_environment_details C (''venv/bin/'' @ (if pv = 3 then ''python3'' else ''python2'')) s3
             = (Inr env, s4)"
      and "queue_loop fuel C solver all_solvers (''venv/bin/'' @ (if pv = 3 then ''python3'' else ''python2''))
             tr L1 s4 = Some (Inl e, s')"
      and "r = Inl e"
  | (returned) r1 s1 r2 s2 L1 s3 env s4 L2 where
      "run_command C ''virtualenv -p python3 venv'' True s = (Inr r1, s1)"
      and "run_command C ((''venv/bin/'' @ (if pv = 3 then ''python3'' else ''python2''))
                            @ '' -m pip install pipdeptree'') True s1 = (Inr r2, s2)"
      and "seed_loop C solver (case ex of None \<Rightarrow> {} | Some E \<Rightarrow> E) requirements
             \<lparr>packages_seen = {}, packages = [], errors = [], unresolved = [], unparsed = [], queue = []\<rparr>
             s2 = (Inr L1, s3)"
      and "get_environment_details C (''venv/bin/'' @ (if pv = 3 then ''python3'' else ''python2'')) s3
             = (Inr env, s4)"
      and "queue_loop fuel C solver all_solvers (''venv/bin/'' @ (if pv = 3 then ''python3'' else ''python2''))
             tr L1 s4 = Some (Inr L2, s')"
      and "r = Inr \<lparr>tree = packages L2, res_errors = errors L2, res_unparsed = unparsed L2,
                     res_unresolved = unresolved L2, environment = env\<rparr>"
proof -
  obtain x1 s1 where c1: "run_command C ''virtualenv -p python3 venv'' True s = (x1, s1)"
    by (cases "run_command C ''virtualenv -p python3 venv'' True s")
  show thesis
  proof (cases x1)
    case (Inl e)
    with assms c1 show ?thesis by (intro virtualenv [of e]) (auto simp: do_resolve_index_def)
  next
    case r1: (Inr r1)
    obtain x2 s2 where c2: "run_command C ((''venv/bin/'' @ (if pv = 3 then ''python3'' else ''python2''))
                            @ '' -m pip install pipdeptree'') True s1 = (x2, s2)"
      by (cases "run_command C ((''venv/bin/'' @ (if pv = 3 then ''python3'' else ''python2''))
                            @ '' -m pip install pipdeptree'') True s1")
    show ?thesis
    proof (cases x2)
      case (Inl e)
      with assms c1 r1 c2 show ?thesis
        by (intro pipdeptree [of r1 s1 e]) (auto simp: do_resolve_index_def Let_def)
    next
      case r2: (Inr r2)
      obtain x3 s3 where c3: "seed_loop C solver (case ex of None \<Rightarrow> {} | Some E \<Rightarrow> E) requirements
             \<lparr>packages_seen = {}, packages = [], errors = [], unresolved = [], unparsed = [], queue = []\<rparr>
             s2 = (x3, s3)"
        by (cases "seed_loop C solver (case ex of None \<Rightarrow> {} | Some E \<Rightarrow> E) requirements
             \<lparr>packages_seen = {}, packages = [], errors = [], unresolved = [], unparsed = [], queue = []\<rparr>
             s2")
      show ?thesis
      proof (cases x3)
        case (Inl e)
        with assms c1 r1 c2 r2 c3 show ?thesis
          by (intro seeds [of r1 s1 r2 s2 e]) (auto simp: do_resolve_index_def Let_def)
      next
        case L1: (Inr L1)
        obtain x4 s4 where c4: "get_environment_details C
            (''venv/bin/'' @ (if pv = 3 then ''python3'' else ''python2'')) s3 = (x4, s4)"
          by (cases "get_environment_details C
            (''venv/bin/'' @ (if pv = 3 then ''python3'' else ''python2'')) s3")
        show ?thesis
        proof (cases x4)
          case (Inl e)
          with assms c1 r1 c2 r2 c3 L1 c4 show ?thesis
            by (intro baseline [of r1 s1 r2 s2 L1 s3 e]) (auto simp: do_resolve_index_def Let_def)
        next
          case env: (Inr env)
          from assms c1 r1 c2 r2 c3 L1 c4 env
          have q: "(case queue_loop fuel C solver all_solvers
                      (''venv/bin/'' @ (if pv = 3 then ''python3'' else ''python2'')) tr L1 s4 of
                     None \<Rightarrow> None
                   | Some (Inl err, s5) \<Rightarrow> Some (Inl err, s5)
                   | Some (Inr L2, s5) \<Rightarrow>
                       Some (Inr \<lparr>tree = packages L2, res_errors = errors L2,
                                  res_unparsed = unparsed L2, res_unresolved = unresolved L2,
                                  environment = env\<rparr>, s5)) = Some (r, s')"
            by (auto simp: do_resolve_index_def Let_def)
          then show ?thesis
            using c1 r1 c2 r2 c3 L1 c4 env
            by (auto split: option.splits prod.splits sum.splits
                     intro: traversal [of r1 s1 r2 s2 L1 s3 env s4]
                            returned [of r1 s1 r2 s2 L1 s3 env s4])
        qed
      qed
    qed
  qed
qed

lemma get_environment_details_issues:
  "get_environment_details C pb s = (r, s') \<Longrightarrow> issues (pb @ '' -m '') s s'"
  by (auto simp: issues_def dest!: get_environment_details_frame)


lemma seed_loop_issues:
  "seed_loop C index ex requirements L s = (r, s') \<Longrightarrow> issues p s s'"
  by (auto dest!: seed_loop_frame intro: issues_refl)

lemma pass_issues:
  assumes "do_resolve_index fuel C solver all_solvers requirements pv ex tr s = Some (r, s')"
  shows "\<exists>x s1. run_command C ''virtualenv -p python3 venv'' True s = (x, s1)
           \<and> issues ((''venv/bin/'' @ (if pv = 3 then ''python3'' else ''python2'')) @ '' -m '') s1 s'"
proof -
  let ?pb = "''venv/bin/'' @ (if pv = 3 then ''python3'' else ''python2'')"
  let ?p = "?pb @ '' -m ''"
  have pre: "prefix ?p (?pb @ '' -m pip install pipdeptree'')" by simp
  from assms show ?thesis
  proof (cases rule: do_resolve_index_cases)
    case (virtualenv e)
    then show ?thesis by (auto intro: issues_refl)
  next
    case (pipdeptree r1 s1 e)
    from run_command_issues [OF pipdeptree(2) pre] pipdeptree(1) show ?thesis by blast
  next
    case (seeds r1 s1 r2 s2 e)
    from issues_trans [OF run_command_issues [OF seeds(2) pre] seed_loop_issues [OF seeds(3)]] seeds(1)
    show ?thesis by blast
  next
    case (baseline r1 s1 r2 s2 L1 s3 e)
    from issues_trans [OF issues_trans [OF run_command_issues [OF baseline(2) pre]
          seed_loop_issues [OF baseline(3)]] get_environment_details_issues [OF baseline(4)]]
      baseline(1)
    show ?thesis by blast
  next
    case (traversal r1 s1 r2 s2 L1 s3 env s4 e)
    from queue_loop_frame [OF traversal(5)] have "issues ?p s4 s'" by simp
    from issues_trans [OF issues_trans [OF issues_trans [OF run_command_issues [OF traversal(2) pre]
          seed_loop_issues [OF traversal(3)]] get_environment_details_issues [OF traversal(4)]] this]
      traversal(1)
    show ?thesis by blast
  next
    case (returned r1 s1 r2 s2 L1 s3 env s4 L2)
    from queue_loop_frame [OF returned(5)] have "issues ?p s4 s'" by simp
    from issues_trans [OF issues_trans [OF issues_trans [OF run_command_issues [OF returned(2) pre]
          seed_loop_issues [OF returned(3)]] get_environment_details_issues [OF returned(4)]] this]
      returned(1)
    show ?thesis by blast
  qed
qed

text \<open>
  C10. Whatever \<^verbatim>\<open>python_version\<close> is, the first command of a pass is
  \<^verbatim>\<open>virtualenv -p python3 venv\<close>; every later command of the pass is
  \<^verbatim>\<open>venv/bin/python3 -m ...\<close> when \<^verbatim>\<open>python_version\<close> is 3 and
  \<^verbatim>\<open>venv/bin/python2 -m ...\<close> otherwise.
\<close>

theorem environment_created_with_python3:
  assumes "do_resolve_index fuel C solver all_solvers requirements python_version exclude_packages
             transitive s = Some (r, s')"
  shows "\<exists>cs. commands s' = commands s @ ''virtualenv -p python3 venv'' # cs
            \<and> (\<forall>c \<in> set cs. prefix (''venv/bin/''
                   @ (if python_version = 3 then ''python3'' else ''python2'') @ '' -m '') c)"
proof -
  from pass_issues [OF assms] obtain x s1 where
    c: "run_command C ''virtualenv -p python3 venv'' True s = (x, s1)" and
    i: "issues ((''venv/bin/'' @ (if python_version = 3 then ''python3'' else ''python2'')) @ '' -m '') s1 s'"
    by blast
  from run_command_frame [OF c] i show ?thesis
    by (auto simp: issues_def list_all_iff)
qed

theorem environment_created_with_python3_witness:
  "\<exists>r s'. do_resolve_index (Suc 0) demo ''i'' [''i''] [''a''] 2 None False start = Some (r, s')
      \<and> (\<exists>cs. commands s' = ''virtualenv -p python3 venv'' # cs
             \<and> (\<forall>c \<in> set cs. prefix ''venv/bin/python2 -m '' c))"
proof -
  have "\<exists>r s'. do_resolve_index (Suc 0) demo ''i'' [''i''] [''a''] 2 None False start = Some (r, s')"
    by (simp add: eval_defs demo_def demo_inventory_def start_def)
  then obtain r s' where
    h: "do_resolve_index (Suc 0) demo ''i'' [''i''] [''a''] 2 None False start = Some (r, s')"
    by blast
  from environment_created_with_python3 [OF h] h show ?thesis
    by (simp add: start_def)
qed

subsection \<open>The passes of \<^verbatim>\<open>resolve\<close>\<close>

lemma passes_loop_Cons_cases:
  assumes "passes_loop fuel C all_solvers (u # us) requirements pv ex tr result s = Some (r, s')"
  obtains (raised) e where
      "do_resolve_index fuel C u all_solvers requirements pv ex tr s = Some (Inl e, s')" and "r = Inl e"
  | (passed) x s1 where
      "do_resolve_index fuel C u all_solvers requirements pv ex tr s = Some (Inr x, s1)"
      and "passes_loop fuel C all_solvers us requirements pv ex tr (result @ [x]) s1 = Some (r, s')"
  using assms by (auto split: option.splits prod.splits sum.splits)

lemma passes_loop_results:
  "passes_loop fuel C all_solvers us requirements pv ex tr result s = Some (Inr results, s') \<Longrightarrow>
     \<exists>new states. results = result @ new \<and> length new = length us
        \<and> length states = Suc (length us) \<and> hd states = s \<and> last states = s'
        \<and> (\<forall>i < length us.
              do_resolve_index fuel C (us ! i) all_solvers requirements pv ex tr (states ! i)
                = Some (Inr (new ! i), states ! Suc i))"
proof (induction us arbitrary: result s)
  case Nil
  then show ?case by (auto intro: exI [of _ "[s]"])
next
  case (Cons u us)
  from Cons.prems show ?case
  proof (cases rule: passes_loop_Cons_cases)
    case (raised e)
    then show ?thesis by simp
  next
    case (passed x s1)
    from Cons.IH [OF passed(2)] obtain new states where
      r: "results = (result @ [x]) @ new" and ln: "length new = length us" and
      ls: "length states = Suc (length us)" and h: "hd states = s1" and l: "last states = s'" and
      p: "\<forall>i < length us.
            do_resolve_index fuel C (us ! i) all_solvers requirements pv ex tr (states ! i)
              = Some (Inr (new ! i), states ! Suc i)"
      by blast
    from ls have ne: "states \<noteq> []" by auto
    with h have h0: "states ! 0 = s1" by (simp add: hd_conv_nth)
    have "\<forall>i < length (u # us).
            do_resolve_index fuel C ((u # us) ! i) all_solvers requirements pv ex tr ((s # states) ! i)
              = Some (Inr ((x # new) ! i), (s # states) ! Suc i)"
    proof (intro allI impI)
      fix i assume "i < length (u # us)"
      then show "do_resolve_index fuel C ((u # us) ! i) all_solvers requirements pv ex tr ((s # states) ! i)
              = Some (Inr ((x # new) ! i), (s # states) ! Suc i)"
        using passed(1) h0 p by (cases i) auto
    qed
    moreover have "results = result @ (x # new)" using r by simp
    moreover have "length (x # new) = length (u # us)" using ln by simp
    moreover have "length (s # states) = Suc (length (u # us))" using ls by simp
    moreover have "hd (s # states) = s" by simp
    moreover have "last (s # states) = s'" using l ne by simp
    ultimately show ?thesis by blast
  qed
qed

lemma passes_loop_returns:
  "\<forall>u \<in> set us. \<forall>s0. \<exists>r s1. do_resolve_index fuel C u all_solvers requirements pv ex tr s0 = Some (Inr r, s1) \<Longrightarrow>
     \<exists>results s'. passes_loop fuel C all_solvers us requirements pv ex tr result s = Some (Inr results, s')"
proof (induction us arbitrary: result s)
  case Nil
  then show ?case by simp
next
  case (Cons u us)
  from Cons.prems obtain r s1 where
    "do_resolve_index fuel C u all_solvers requirements pv ex tr s = Some (Inr r, s1)"
    by (meson list.set_intros(1))
  moreover from Cons.prems
  have "\<exists>results s'. passes_loop fuel C all_solvers us requirements pv ex tr (result @ [r]) s1
          = Some (Inr results, s')"
    by (intro Cons.IH) auto
  ultimately show ?case by simp
qed

text \<open>
  C4. When \<^verbatim>\<open>resolve\<close> returns, it returns one result per index URL, and the results
  are those of the passes run in the order of \<^verbatim>\<open>index_urls\<close>: the pass of the i-th URL
  starts in the state the previous pass left and returns the i-th result. It does return
  whenever \<^verbatim>\<open>python_version\<close> is 2 or 3 and every pass returns.
\<close>

theorem resolve_returns_one_result_per_index:
  "(resolve fuel C requirements (Some index_urls) python_version exclude_packages transitive s
      = Some (Inr results, s') \<longrightarrow>
      length results = length index_urls
      \<and> (\<exists>states. length states = Suc (length index_urls) \<and> hd states = s \<and> last states = s'
            \<and> (\<forall>i < length index_urls.
                  do_resolve_index fuel C (index_urls ! i) index_urls requirements python_version
                    exclude_packages transitive (states ! i)
                  = Some (Inr (results ! i), states ! Suc i))))
   \<and> ((python_version = 2 \<or> python_version = 3)
        \<and> (\<forall>u \<in> set index_urls. \<forall>s0. \<exists>r s1.
              do_resolve_index fuel C u index_urls requirements python_version exclude_packages
                transitive s0 = Some (Inr r, s1)) \<longrightarrow>
      (\<exists>rs s1. resolve fuel C requirements (Some index_urls) python_version exclude_packages
                  transitive s = Some (Inr rs, s1) \<and> length rs = length index_urls))"
proof (intro conjI impI)
  assume "resolve fuel C requirements (Some index_urls) python_version exclude_packages transitive s
      = Some (Inr results, s')"
  then have "passes_loop fuel C index_urls index_urls requirements python_version exclude_packages
               transitive [] s = Some (Inr results, s')"
    by (simp add: resolve_def split: if_splits)
  from passes_loop_results [OF this]
  show "length results = length index_urls"
    and "\<exists>states. length states = Suc (length index_urls) \<and> hd states = s \<and> last states = s'
            \<and> (\<forall>i < length index_urls.
                  do_resolve_index fuel C (index_urls ! i) index_urls requirements python_version
                    exclude_packages transitive (states ! i)
                  = Some (Inr (results ! i), states ! Suc i))"
    by auto
next
  assume a: "(python_version = 2 \<or> python_version = 3)
        \<and> (\<forall>u \<in> set index_urls. \<forall>s0. \<exists>r s1.
              do_resolve_index fuel C u index_urls requirements python_version exclude_packages
                transitive s0 = Some (Inr r, s1))"
  then have "\<exists>rs s1. passes_loop fuel C index_urls index_urls requirements python_version
               exclude_packages transitive [] s = Some (Inr rs, s1)"
    by (intro passes_loop_returns) blast
  then obtain rs s1 where p: "passes_loop fuel C index_urls index_urls requirements python_version
               exclude_packages transitive [] s = Some (Inr rs, s1)" by blast
  from passes_loop_results [OF p] have "length rs = length index_urls" by auto
  with p a show "\<exists>rs s1. resolve fuel C requirements (Some index_urls) python_version exclude_packages
                  transitive s = Some (Inr rs, s1) \<and> length rs = length index_urls"
    by (auto simp: resolve_def)
qed

lemma pass_complete:
  assumes "do_resolve_index fuel C solver all_solvers requirements pv ex tr s = Some (Inr r, s')"
  shows "\<forall>e \<in> set (tree r). list_all (complete all_solvers) (dependencies e)"
  using assms
proof (cases rule: do_resolve_index_cases)
  case (returned r1 s1 r2 s2 L1 s3 env s4 L2)
  from seed_loop_seen [OF returned(3)] have "packages L1 = []" by simp
  then have "\<forall>e \<in> set (packages L1). list_all (complete all_solvers) (dependencies e)" by simp
  from queue_loop_complete [OF returned(5) this] returned(6) show ?thesis by simp
qed simp_all

text \<open>
  C5. In every result that \<^verbatim>\<open>resolve\<close> returns, every dependency of every entry of the
  tree carries \<^verbatim>\<open>resolved_versions\<close>, and their indexes are the configured index URLs
  in the configured order, whatever the solvers answered.
\<close>

theorem resolved_versions_one_per_index:
  assumes "resolve fuel C requirements (Some index_urls) python_version exclude_packages transitive s
             = Some (Inr results, s')"
  shows "\<forall>r \<in> set results. \<forall>e \<in> set (tree r). \<forall>d \<in> set (dependencies e).
           \<exists>rvs. dep_resolved_versions d = Some rvs \<and> map rv_index rvs = index_urls"
proof (intro ballI)
  fix r e d
  assume r: "r \<in> set results" and e: "e \<in> set (tree r)" and d: "d \<in> set (dependencies e)"
  from assms have "passes_loop fuel C index_urls index_urls requirements python_version exclude_packages
               transitive [] s = Some (Inr results, s')"
    by (simp add: resolve_def split: if_splits)
  from passes_loop_results [OF this] obtain states where
    l: "length results = length index_urls" and
    p: "\<forall>i < length index_urls.
          do_resolve_index fuel C (index_urls ! i) index_urls requirements python_version
            exclude_packages transitive (states ! i) = Some (Inr (results ! i), states ! Suc i)"
    by auto
  from r obtain i where "i < length results" "results ! i = r" by (auto simp: in_set_conv_nth)
  with l p have "do_resolve_index fuel C (index_urls ! i) index_urls requirements python_version
            exclude_packages transitive (states ! i) = Some (Inr r, states ! Suc i)" by auto
  from pass_complete [OF this] e d have "complete index_urls d" by (auto simp: list_all_iff)
  then show "\<exists>rvs. dep_resolved_versions d = Some rvs \<and> map rv_index rvs = index_urls"
    by (simp add: complete_def)
qed

theorem resolve_returns_one_result_per_index_witness:
  "(\<forall>s0. \<exists>r s1.
       do_resolve_index (Suc 0) demo ''i'' [''i'', ''j''] [''foo''] 3 None True s0 = Some (Inr r, s1))
   \<and> (\<forall>s0. \<exists>r s1.
       do_resolve_index (Suc 0) demo ''j'' [''i'', ''j''] [''foo''] 3 None True s0 = Some (Inr r, s1))
   \<and> (\<exists>rs s1 states.
         resolve (Suc 0) demo [''foo''] (Some [''i'', ''j'']) 3 None True start = Some (Inr rs, s1)
         \<and> length rs = 2 \<and> length states = 3 \<and> hd states = start \<and> last states = s1
         \<and> do_resolve_index (Suc 0) demo ''i'' [''i'', ''j''] [''foo''] 3 None True (states ! 0)
             = Some (Inr (rs ! 0), states ! 1)
         \<and> do_resolve_index (Suc 0) demo ''j'' [''i'', ''j''] [''foo''] 3 None True (states ! 1)
             = Some (Inr (rs ! 1), states ! 2))"
proof -
  have h2: "\<forall>u \<in> set [''i'', ''j'']. \<forall>s0. \<exists>r s1.
       do_resolve_index (Suc 0) demo u [''i'', ''j''] [''foo''] 3 None True s0 = Some (Inr r, s1)"
    by (simp add: eval_defs demo_def demo_inventory_def)
  have v: "(3::int) = 2 \<or> (3::int) = 3" by simp
  from resolve_returns_one_result_per_index [of "Suc 0" demo "[''foo'']" "[''i'', ''j'']" 3 None True start,
      THEN conjunct2, rule_format, OF conjI [OF v h2]]
  obtain rs s1 where
    h1: "resolve (Suc 0) demo [''foo''] (Some [''i'', ''j'']) 3 None True start = Some (Inr rs, s1)"
    and l: "length rs = length [''i'', ''j'']"
    by blast
  from resolve_returns_one_result_per_index [of "Suc 0" demo "[''foo'']" "[''i'', ''j'']" 3 None True start rs s1,
      THEN conjunct1, rule_format, OF h1]
  obtain states where
    s: "length states = Suc (length [''i'', ''j''])" "hd states = start" "last states = s1"
    and p: "\<forall>i < length [''i'', ''j''].
              do_resolve_index (Suc 0) demo ([''i'', ''j''] ! i) [''i'', ''j''] [''foo''] 3 None True
                (states ! i) = Some (Inr (rs ! i), states ! Suc i)"
    by blast
  from p [rule_format, of 0] p [rule_format, of 1]
  have "do_resolve_index (Suc 0) demo ''i'' [''i'', ''j''] [''foo''] 3 None True (states ! 0)
             = Some (Inr (rs ! 0), states ! 1)"
    and "do_resolve_index (Suc 0) demo ''j'' [''i'', ''j''] [''foo''] 3 None True (states ! 1)
             = Some (Inr (rs ! 1), states ! 2)"
    by (simp_all add: numeral_2_eq_2)
  with h1 h2 l s show ?thesis
    by (intro conjI exI [of _ rs] exI [of _ s1] exI [of _ states]) simp_all
qed

theorem resolved_versions_one_per_index_witness:
  "\<exists>results s'.
      resolve (Suc (Suc 0)) demo [''a''] (Some [''i'', ''j'']) 3 None True start = Some (Inr results, s')
      \<and> map (\<lambda>r. map (\<lambda>e. map dep_package_name (dependencies e)) (tree r)) results
          = [[[''b''], []], [[''b''], []]]
      \<and> (\<forall>r \<in> set results. \<forall>e \<in> set (tree r). \<forall>d \<in> set (dependencies e).
            \<exists>rvs. dep_resolved_versions d = Some rvs \<and> map rv_index rvs = [''i'', ''j''])"
proof -
  have "\<exists>results s'.
      resolve (Suc (Suc 0)) demo [''a''] (Some [''i'', ''j'']) 3 None True start = Some (Inr results, s')
      \<and> map (\<lambda>r. map (\<lambda>e. map dep_package_name (dependencies e)) (tree r)) results
          = [[[''b''], []], [[''b''], []]]"
    by (simp add: eval_defs demo_def demo_inventory_def start_def)
  then obtain results s' where
    h: "resolve (Suc (Suc 0)) demo [''a''] (Some [''i'', ''j'']) 3 None True start = Some (Inr results, s')"
    and t: "map (\<lambda>r. map (\<lambda>e. map dep_package_name (dependencies e)) (tree r)) results
          = [[[''b''], []], [[''b''], []]]"
    by (elim exE conjE)
  from resolved_versions_one_per_index [OF h] h t show ?thesis
    by (intro exI [of _ results] exI [of _ s'] conjI)
qed


text \<open>
  C7. A pass with \<^verbatim>\<open>transitive=False\<close> that returns: the visited-set at the end of the
  traversal is the one the seed loop built, which holds exactly the pairs of the seed queue;
  the traversal announces the seed queue, last pair first, and nothing else; and the tree
  and the errors together hold one record per pair of the seed queue.
\<close>

theorem not_transitive_probes_only_seeds:
  assumes "do_resolve_index fuel C solver all_solvers requirements python_version exclude_packages
             False s = Some (Inr r, s')"
  shows "\<exists>s2 L1 s3 s4 L2.
           seed_loop C solver (case exclude_packages of None \<Rightarrow> {} | Some E \<Rightarrow> E) requirements
             \<lparr>packages_seen = {}, packages = [], errors = [], unresolved = [], unparsed = [], queue = []\<rparr>
             s2 = (Inr L1, s3)
         \<and> queue_loop fuel C solver all_solvers
             (''venv/bin/'' @ (if python_version = 3 then ''python3'' else ''python2'')) False L1 s4
             = Some (Inr L2, s')
         \<and> packages_seen L1 = set (queue L1)
         \<and> packages_seen L2 = packages_seen L1
         \<and> discovered s' = discovered s @ rev (queue L1)
         \<and> tree r = packages L2 \<and> res_errors r = errors L2
         \<and> length (tree r) + length (res_errors r) = length (queue L1)"
  using assms
proof (cases rule: do_resolve_index_cases)
  case (returned r1 s1 r2 s2 L1 s3 env s4 L2)
  from seed_loop_seen [OF returned(3)]
  have sd: "packages_seen L1 = set (queue L1)" "packages L1 = []" "errors L1 = []" by simp_all
  from queue_loop_not_transitive [OF returned(5)]
  have q: "packages_seen L2 = packages_seen L1" "discovered s' = discovered s4 @ rev (queue L1)"
    "length (packages L2) + length (errors L2)
       = length (packages L1) + length (errors L1) + length (queue L1)" by simp_all
  from run_command_frame [OF returned(1)] run_command_frame [OF returned(2)]
    seed_loop_frame [OF returned(3)] get_environment_details_frame [OF returned(4)]
  have "discovered s4 = discovered s" by simp
  with q sd returned(3,5,6) show ?thesis
    by (intro exI [of _ s2] exI [of _ L1] exI [of _ s3] exI [of _ s4] exI [of _ L2]) simp
qed simp_all

theorem not_transitive_probes_only_seeds_witness:
  "\<exists>r s'. do_resolve_index (Suc 0) demo ''i'' [''i''] [''a''] 3 None False start = Some (Inr r, s')
      \<and> map package_name (tree r) = [''a'']
      \<and> map (\<lambda>e. map dep_package_name (dependencies e)) (tree r) = [[''b'']]
      \<and> discovered s' = [(''a'', ''1'')]"
proof -
  have "\<exists>r s'. do_resolve_index (Suc 0) demo ''i'' [''i''] [''a''] 3 None False start = Some (Inr r, s')
      \<and> map package_name (tree r) = [''a'']
      \<and> map (\<lambda>e. map dep_package_name (dependencies e)) (tree r) = [[''b'']]"
    by (simp add: eval_defs demo_def demo_inventory_def start_def)
  then obtain r s' where
    h: "do_resolve_index (Suc 0) demo ''i'' [''i''] [''a''] 3 None False start = Some (Inr r, s')"
    and t: "map package_name (tree r) = [''a'']"
      "map (\<lambda>e. map dep_package_name (dependencies e)) (tree r) = [[''b'']]"
    by (elim exE conjE)
  from not_transitive_probes_only_seeds [OF h] obtain s2 L1 s3 where
    sl: "seed_loop demo ''i'' (case None of None \<Rightarrow> {} | Some E \<Rightarrow> E) [''a'']
             \<lparr>packages_seen = {}, packages = [], errors = [], unresolved = [], unparsed = [], queue = []\<rparr>
             s2 = (Inr L1, s3)" and
    d: "discovered s' = discovered start @ rev (queue L1)"
    by (elim exE conjE)
  from sl have "queue L1 = [(''a'', ''1'')]"
    by (simp add: demo_def resolve_versions_def get_dependency_specification_def Let_def)
       (auto split: prod.splits)
  with d have "discovered s' = [(''a'', ''1'')]" by (simp add: start_def)
  with h t show ?thesis
    by (intro exI [of _ r] exI [of _ s'] conjI)
qed


text \<open>
  C6, as the code has it. The visited-set holds pairs of strings and a pair is looked up
  letter for letter. On \<open>demo\<close>, the pairs of \<open>Foo\<close> and of \<open>foo\<close> in version \<open>1\<close>,
  whose names are equal up to letter case, are both announced and probed in one pass.
\<close>

theorem names_differing_in_case_both_probed:
  "map_option (discovered \<circ> snd)
     (do_resolve_index (Suc (Suc 0)) demo ''i'' [''i''] [''Foo'', ''foo''] 3 None True start)
   = Some [(''foo'', ''1''), (''Foo'', ''1'')]
   \<and> lower ''Foo'' = lower ''foo''"
  by (simp add: eval_defs demo_def demo_inventory_def start_def)

text \<open>
  C6, amended. The key of the visited-set is the exact pair. The dependency expansion adds
  every resolved version's pair to the visited-set and appends to the queue, once each,
  exactly the pairs that were not in the visited-set; a pair in the visited-set whose name
  differs, be it only in letter case, does not stand for it. And when the queue holds no pair
  twice and only pairs of the visited-set, the traversal announces no pair twice.
\<close>

theorem visited_set_key_is_exact_pair:
  "(versions_loop name versions (seen, q) = (seen', q') \<longrightarrow>
      seen' = seen \<union> Pair name ` set versions
      \<and> (\<exists>new. q' = q @ new \<and> distinct new \<and> set new = Pair name ` set versions - seen))
   \<and> (queue_loop fuel C index all_solvers python_bin transitive L s = Some (r, s')
        \<and> distinct (queue L) \<and> set (queue L) \<subseteq> packages_seen L \<longrightarrow>
      (\<exists>ds. discovered s' = discovered s @ ds \<and> distinct ds))"
proof (intro conjI impI)
  assume "versions_loop name versions (seen, q) = (seen', q')"
  from versions_loop_eq [OF this]
  show "seen' = seen \<union> Pair name ` set versions"
    and "\<exists>new. q' = q @ new \<and> distinct new \<and> set new = Pair name ` set versions - seen"
    by blast+
next
  assume a: "queue_loop fuel C index all_solvers python_bin transitive L s = Some (r, s')
        \<and> distinct (queue L) \<and> set (queue L) \<subseteq> packages_seen L"
  then have "distinct ([] @ queue L)" "set ([] @ queue L) \<subseteq> packages_seen L" by simp_all
  from queue_loop_distinct [OF a [THEN conjunct1] this]
  show "\<exists>ds. discovered s' = discovered s @ ds \<and> distinct ds" by simp
qed

theorem visited_set_key_is_exact_pair_witness:
  "versions_loop ''Foo'' [''1''] ({(''foo'', ''1'')}, [(''foo'', ''1'')])
     = ({(''foo'', ''1''), (''Foo'', ''1'')}, [(''foo'', ''1''), (''Foo'', ''1'')])
   \<and> (\<exists>new. [(''foo'', ''1''), (''Foo'', ''1'')] = [(''foo'', ''1'')] @ new \<and> distinct new)
   \<and> (\<exists>r s'. queue_loop (Suc (Suc 0)) demo ''i'' [''i''] ''venv/bin/python3'' True
                 \<lparr>packages_seen = {(''foo'', ''1''), (''Foo'', ''1'')}, packages = [], errors = [],
                  unresolved = [], unparsed = [], queue = [(''foo'', ''1''), (''Foo'', ''1'')]\<rparr> start
               = Some (r, s')
             \<and> (\<exists>ds. discovered s' = discovered start @ ds \<and> distinct ds))"
proof -
  let ?L = "\<lparr>packages_seen = {(''foo'', ''1''), (''Foo'', ''1'')}, packages = [], errors = [],
             unresolved = [], unparsed = [], queue = [(''foo'', ''1''), (''Foo'', ''1'')]\<rparr>"
  have v: "versions_loop ''Foo'' [''1''] ({(''foo'', ''1'')}, [(''foo'', ''1'')])
     = ({(''foo'', ''1''), (''Foo'', ''1'')}, [(''foo'', ''1''), (''Foo'', ''1'')])"
    by (simp add: insert_commute)
  from visited_set_key_is_exact_pair [THEN conjunct1, rule_format, OF v]
  have n: "\<exists>new. [(''foo'', ''1''), (''Foo'', ''1'')] = [(''foo'', ''1'')] @ new \<and> distinct new"
    by (elim conjE exE) (rule exI, erule conjI, assumption)
  have "\<exists>r s'. queue_loop (Suc (Suc 0)) demo ''i'' [''i''] ''venv/bin/python3'' True ?L start
               = Some (r, s')"
    by (simp add: eval_defs demo_def demo_inventory_def start_def)
  then obtain r s' where
    h: "queue_loop (Suc (Suc 0)) demo ''i'' [''i''] ''venv/bin/python3'' True ?L start = Some (r, s')"
    by (elim exE)
  have "distinct (queue ?L)" "set (queue ?L) \<subseteq> packages_seen ?L" by simp_all
  with h have hyp: "queue_loop (Suc (Suc 0)) demo ''i'' [''i''] ''venv/bin/python3'' True ?L start
      = Some (r, s') \<and> distinct (queue ?L) \<and> set (queue ?L) \<subseteq> packages_seen ?L"
    by (intro conjI)
  from visited_set_key_is_exact_pair [THEN conjunct2, rule_format, OF hyp]
  have "\<exists>ds. discovered s' = discovered start @ ds \<and> distinct ds" .
  with v n h show ?thesis
    by (intro conjI exI [of _ r] exI [of _ s'])
qed

subsection \<open>What leaves a pass as an exception\<close>







subsection \<open>The traversal ends\<close>















subsection \<open>The record a probe leaves\<close>














subsection \<open>What a pass records\<close>







subsection \<open>What \<^verbatim>\<open>resolve\<close> raises and what it records\<close>






end
